theory Spec2Isabelle
  imports Main "HOL-Library.Sublist"
begin

section \<open>Strings as the scripts use them\<close>

text \<open>
  The repository is three Python scripts, \<^verbatim>\<open>fix_empty_logs.py\<close>,
  \<^verbatim>\<open>fix_all_syntax.py\<close> and \<^verbatim>\<open>fix_json_stringify.py\<close>. Each reads
  \<^verbatim>\<open>server/routes.ts\<close> into memory, rewrites the text and writes it back. A file
  content is modelled as a \<^typ>\<open>string\<close>, a list of characters with code points below
  256, as Python holds it after reading. Reading and writing the file and the message each
  script prints at the end are left out, so every script is the function from the text
  read to the text written. Between reading and writing no script raises on any text.
\<close>

text \<open>The line feed, \<^verbatim>\<open>'\n'\<close> in the sources.\<close>

definition nl :: char where
  "nl = CHR 0x0A"

text \<open>
  Python's \<^verbatim>\<open>p in s\<close> on strings: \<open>p\<close> occurs in \<open>s\<close> as a contiguous piece.
\<close>

fun contains :: "string \<Rightarrow> string \<Rightarrow> bool" where
  "contains p [] = (p = [])"
| "contains p (c # cs) = (prefix p (c # cs) \<or> contains p cs)"

text \<open>
  Python's \<^verbatim>\<open>s.replace(old, new)\<close>: the occurrences of \<open>old\<close> are found from the
  left and do not overlap. With an empty \<open>old\<close> Python puts \<open>new\<close> before every
  character and at the end; the scripts never do that, the equation is there to keep the
  function the one Python has.
\<close>

function replace :: "string \<Rightarrow> string \<Rightarrow> string \<Rightarrow> string" where
  "replace [] new s = new @ concat (map (\<lambda>c. c # new) s)"
| "replace (a # as) new [] = []"
| "replace (a # as) new (c # cs) =
     (if prefix (a # as) (c # cs)
      then new @ replace (a # as) new (drop (length (a # as)) (c # cs))
      else c # replace (a # as) new cs)"
  by pat_completeness auto
termination
  by (relation "measure (\<lambda>(old, new, s). length s)") auto

text \<open>
  Python's \<^verbatim>\<open>s.lower()\<close> on code points below 256: the letters A to Z and the
  accented capitals of Latin-1 (all of 192 to 222 but the multiplication sign 215) move up
  by 32, every other character stays.
\<close>

definition lower_char :: "char \<Rightarrow> char" where
  "lower_char c =
     (let n = (of_char c :: nat)
      in if (65 \<le> n \<and> n \<le> 90) \<or> (192 \<le> n \<and> n \<le> 222 \<and> n \<noteq> 215)
         then char_of (n + 32) else c)"

definition lower :: "string \<Rightarrow> string" where
  "lower s = map lower_char s"

text \<open>
  Python's \<^verbatim>\<open>sep.join(xs)\<close>, \<^verbatim>\<open>content.split('\n')\<close> and
  \<^verbatim>\<open>f.readlines()\<close>. \<open>split_lines\<close> never returns the empty list and drops the
  line feeds; \<open>readlines\<close> keeps each line feed at the end of its line and returns no
  line for the empty text.
\<close>

fun join :: "string \<Rightarrow> string list \<Rightarrow> string" where
  "join sep [] = []"
| "join sep [x] = x"
| "join sep (x # y # ys) = x @ sep @ join sep (y # ys)"

fun split_lines :: "string \<Rightarrow> string list" where
  "split_lines [] = [[]]"
| "split_lines (c # cs) =
     (if c = nl then [] # split_lines cs
      else (case split_lines cs of [] \<Rightarrow> [[c]] | l # ls \<Rightarrow> (c # l) # ls))"

fun readlines :: "string \<Rightarrow> string list" where
  "readlines [] = []"
| "readlines (c # cs) =
     (if c = nl then [c] # readlines cs
      else (case readlines cs of [] \<Rightarrow> [[c]] | l # ls \<Rightarrow> (c # l) # ls))"

section \<open>The regular expressions of the scripts\<close>

text \<open>
  Every pattern the scripts pass to \<^verbatim>\<open>re.search\<close> and \<^verbatim>\<open>re.sub\<close> is a
  sequence of three kinds of item: a literal text (\<open>Lit\<close>), a greedy run
  \<^verbatim>\<open>[^c]*\<close> of characters other than \<open>c\<close> that is not captured (\<open>Many c\<close>),
  and a captured greedy run \<^verbatim>\<open>([^c]+)\<close> of at least one such character
  (\<open>Group c\<close>). A negated class also matches a line feed.
\<close>

datatype item = Lit string | Many char | Group char

text \<open>
  \<open>run c s\<close> is the length of the longest run a class \<^verbatim>\<open>[^c]\<close> can take at the
  start of \<open>s\<close>. \<open>rmatch\<close> matches a pattern at the start of a text as the backtracking
  matcher of Python does: a run first takes all it can and gives characters back one at a
  time while the rest of the pattern fails. The result is the list of captured groups and
  the text left after the match.
\<close>

definition run :: "char \<Rightarrow> string \<Rightarrow> nat" where
  "run c s = length (takeWhile (\<lambda>x. x \<noteq> c) s)"

fun first_some :: "(nat \<Rightarrow> 'a option) \<Rightarrow> nat list \<Rightarrow> 'a option" where
  "first_some f [] = None"
| "first_some f (n # ns) = (case f n of Some r \<Rightarrow> Some r | None \<Rightarrow> first_some f ns)"

primrec rmatch :: "item list \<Rightarrow> string \<Rightarrow> (string list \<times> string) option" where
  "rmatch [] s = Some ([], s)"
| "rmatch (it # its) s =
     (case it of
        Lit l \<Rightarrow> if prefix l s then rmatch its (drop (length l) s) else None
      | Many c \<Rightarrow> first_some (\<lambda>n. rmatch its (drop n s)) (rev [0..<Suc (run c s)])
      | Group c \<Rightarrow>
          first_some (\<lambda>n. map_option (\<lambda>(gs, r). (take n s # gs, r)) (rmatch its (drop n s)))
            (rev [1..<Suc (run c s)]))"

text \<open>
  \<^verbatim>\<open>re.search\<close> returns the groups of the leftmost match, trying every start
  position from the left, the end of the text included.
\<close>

fun re_search :: "item list \<Rightarrow> string \<Rightarrow> string list option" where
  "re_search p [] = map_option fst (rmatch p [])"
| "re_search p (c # cs) =
     (case rmatch p (c # cs) of Some (gs, r) \<Rightarrow> Some gs | None \<Rightarrow> re_search p cs)"

text \<open>
  \<^verbatim>\<open>re.sub(pattern, repl, s)\<close> replaces the matches found from the left, each search
  starting where the last match ended. \<open>repl\<close> gets the matched text (group 0) and the
  captured groups; a template such as \<^verbatim>\<open>r'\1'\<close> is the function that returns
  group 1. A match of length 0 is replaced and the next character copied, as Python 3.7
  and later do; no pattern of the scripts has such a match, since each starts with a
  literal that is not empty.
\<close>

function re_sub :: "item list \<Rightarrow> (string \<Rightarrow> string list \<Rightarrow> string) \<Rightarrow> string \<Rightarrow> string" where
  "re_sub p repl [] = (case rmatch p [] of Some (gs, r) \<Rightarrow> repl [] gs | None \<Rightarrow> [])"
| "re_sub p repl (c # cs) =
     (case rmatch p (c # cs) of
        Some (gs, r) \<Rightarrow>
          if length r < length (c # cs)
          then repl (take (length (c # cs) - length r) (c # cs)) gs @ re_sub p repl r
          else repl [] gs @ c # re_sub p repl cs
      | None \<Rightarrow> c # re_sub p repl cs)"
  by pat_completeness auto
termination
  by (relation "measure (\<lambda>(p, repl, s). length s)") auto

text \<open>
  \<^verbatim>\<open>match.group(k)\<close> for \<open>k\<close> from 1. Every pattern below that uses group \<open>k\<close>
  captures at least \<open>k\<close> groups, so the empty text for a missing group is never returned.
\<close>

definition group :: "string list \<Rightarrow> nat \<Rightarrow> string" where
  "group gs k = (if 0 < k \<and> k \<le> length gs then gs ! (k - 1) else [])"

section \<open>fix\_empty\_logs.py\<close>

text \<open>
  The empty logging call the script looks for, and the three calls it writes in its place.
\<close>

definition empty_call :: string where
  "empty_call = ''console.log()''"

definition msg_success :: string where
  \<open>msg_success = ''console.log("Operation completed successfully")''\<close>

definition msg_error :: string where
  \<open>msg_error = ''console.log("Error logged")''\<close>

definition msg_processing :: string where
  \<open>msg_processing = ''console.log("Processing...")''\<close>

text \<open>
  One turn of the loop \<^verbatim>\<open>for i, line in enumerate(lines)\<close>, lines 6 to 19. The list
  is updated in place, so \<^verbatim>\<open>lines[i-1]\<close> is the preceding line as an earlier turn
  has left it, while \<^verbatim>\<open>line\<close> is still the line read from the file. The test
  \<^verbatim>\<open>i > 0\<close> keeps the index in range.
\<close>

definition fix_at :: "nat \<Rightarrow> string list \<Rightarrow> string list" where
  "fix_at i lines =
     (let line = lines ! i in
      if contains empty_call line then
        (if i > 0 then
           (let prev_line = lines ! (i - 1) in
            if contains ''Found'' prev_line \<or> contains ''Created'' prev_line
               \<or> contains ''Updated'' prev_line
            then lines[i := replace empty_call msg_success line]
            else if contains ''error'' (lower prev_line) \<or> contains ''fail'' (lower prev_line)
            then lines[i := replace empty_call msg_error line]
            else lines[i := replace empty_call msg_processing line])
         else lines[i := replace empty_call msg_processing line])
      else lines)"

text \<open>
  The whole loop over the indices of the list, and the script from the text read (split by
  \<^verbatim>\<open>readlines\<close>) to the text written (\<^verbatim>\<open>writelines\<close> concatenates).
\<close>

definition fix_empty_logs_lines :: "string list \<Rightarrow> string list" where
  "fix_empty_logs_lines lines = foldl (\<lambda>ls i. fix_at i ls) lines [0..<length lines]"

definition fix_empty_logs :: "string \<Rightarrow> string" where
  "fix_empty_logs content = concat (fix_empty_logs_lines (readlines content))"

section \<open>fix\_all\_syntax.py\<close>

text \<open>
  The two patterns of lines 16 and 23, and the two catch-all patterns of lines 29 and 30.
  \<^verbatim>\<open>CHR 0x60\<close> is the backtick.
\<close>

definition double_pattern :: "item list" where
  "double_pattern =
     [Lit ''console.log(`${JSON.stringify(`'', Group (CHR 0x60),
      Lit ''`)} ${JSON.stringify('', Group (CHR '')''), Lit '')}`);'']"

definition single_pattern :: "item list" where
  "single_pattern =
     [Lit ''console.log(`${JSON.stringify(`'', Group (CHR 0x60), Lit ''`)}`);'']"

definition wrapped_literal :: "item list" where
  "wrapped_literal = [Lit ''${JSON.stringify(`'', Group (CHR 0x60), Lit ''`)}'']"

definition wrapped_expr :: "item list" where
  "wrapped_expr = [Lit ''${JSON.stringify('', Group (CHR '')''), Lit '')}'']"

text \<open>
  Lines 12 to 26: the two tests on the line, the search, and the line rebuilt from the
  groups behind six spaces. When the search finds nothing the line is kept.
\<close>

definition specific_fix :: "string \<Rightarrow> string" where
  "specific_fix line =
     (if contains ''console.log(`${JSON.stringify('' line then
        (if contains '')} ${JSON.stringify('' line then
           (case re_search double_pattern line of
              Some gs \<Rightarrow>
                (let text1 = group gs 1;
                     text2 = replace ''`'' [] (replace ''`)}'' [] (group gs 2))
                 in ''      console.log(`'' @ text1 @ '' '' @ text2 @ ''`);'')
            | None \<Rightarrow> line)
         else
           (case re_search single_pattern line of
              Some gs \<Rightarrow> (let text = group gs 1 in ''      console.log(`'' @ text @ ''`);'')
            | None \<Rightarrow> line))
      else line)"

text \<open>
  Lines 29 and 30: the two substitutions applied to every line, also to one just rebuilt.
\<close>

definition generic_fix :: "string \<Rightarrow> string" where
  "generic_fix line =
     re_sub wrapped_expr (\<lambda>m gs. group gs 1) (re_sub wrapped_literal (\<lambda>m gs. group gs 1) line)"

text \<open>
  The body of the loop, and the script: the content is split at line feeds, every line is
  fixed, and the lines are joined with line feeds.
\<close>

definition fix_line :: "string \<Rightarrow> string" where
  "fix_line line = generic_fix (specific_fix line)"

definition fix_all_syntax :: "string \<Rightarrow> string" where
  "fix_all_syntax content = join [nl] (map fix_line (split_lines content))"

section \<open>fix\_json\_stringify.py\<close>

text \<open>
  \<^verbatim>\<open>pattern\<close> of line 7, matched against the whole content, so that its two runs can
  cross line feeds.
\<close>

definition stringify_pattern :: "item list" where
  "stringify_pattern =
     [Lit ''console.log(`${JSON.stringify('', Many (CHR '')''), Lit '')}'', Many (CHR 0x60),
      Lit ''`);'']"

text \<open>
  \<^verbatim>\<open>fix_console_log\<close>, lines 9 to 17: three substitutions on the matched text.
\<close>

definition fix_console_log :: "string \<Rightarrow> string" where
  "fix_console_log m =
     (let text = m;
          text = re_sub [Lit ''${JSON.stringify(''] (\<lambda>m gs. []) text;
          text = re_sub [Lit '')}''] (\<lambda>m gs. []) text;
          text = re_sub [Lit ''`'', Group (CHR 0x60), Lit ''`)}'', Many (CHR 0x60), Lit ''`'']
                   (\<lambda>m gs. ''`'' @ group gs 1 @ ''`'') text
      in text)"

text \<open>
  The pattern of the second substitution, line 23, and the script, lines 20 to 27.
\<close>

definition specific_pattern :: "item list" where
  "specific_pattern =
     [Lit ''console.log(`${JSON.stringify(`'', Group (CHR 0x60),
      Lit ''`)} ${JSON.stringify('', Group (CHR '')''), Lit '')`)}`);'']"

definition fix_json_stringify :: "string \<Rightarrow> string" where
  "fix_json_stringify content =
     (let fixed_content = re_sub stringify_pattern (\<lambda>m gs. fix_console_log m) content;
          fixed_content = re_sub specific_pattern
             (\<lambda>m gs. ''console.log(`'' @ group gs 1 @ '' '' @ group gs 2 @ ''`);'') fixed_content
      in fixed_content)"

section \<open>Notions used to state the properties\<close>

text \<open>
  The shapes of the statements the specification talks about: the doubly wrapped logging
  statement with literal text \<open>L\<close> and expression text \<open>E\<close>, the singly wrapped one
  with text \<open>T\<close>, and the flat logging statement with a given template body.
\<close>

definition double_wrapped :: "string \<Rightarrow> string \<Rightarrow> string" where
  "double_wrapped L E =
     ''console.log(`${JSON.stringify(`'' @ L @ ''`)} ${JSON.stringify('' @ E @ '')}`);''"

definition single_wrapped :: "string \<Rightarrow> string" where
  "single_wrapped T = ''console.log(`${JSON.stringify(`'' @ T @ ''`)}`);''"

definition flat_log :: "string \<Rightarrow> string" where
  "flat_log body = ''console.log(`'' @ body @ ''`);''"

text \<open>
  What line 19 of \<^verbatim>\<open>fix_all_syntax.py\<close> does to the second group, and when each of
  the two specific repairs fires: its tests on the line hold and its search finds a match.
\<close>

definition strip_artifacts :: "string \<Rightarrow> string" where
  "strip_artifacts text = replace ''`'' [] (replace ''`)}'' [] text)"

definition double_fires :: "string \<Rightarrow> bool" where
  "double_fires line =
     (contains ''console.log(`${JSON.stringify('' line \<and> contains '')} ${JSON.stringify('' line
      \<and> re_search double_pattern line \<noteq> None)"

definition single_fires :: "string \<Rightarrow> bool" where
  "single_fires line =
     (contains ''console.log(`${JSON.stringify('' line \<and> \<not> contains '')} ${JSON.stringify('' line
      \<and> re_search single_pattern line \<noteq> None)"

text \<open>
  For the empty-log repair: the line written at an index as a function of the preceding
  line the script reads there (\<open>None\<close> at index 0), the message chosen from that line,
  and the keywords that select a message other than the default.
\<close>

definition new_line :: "string option \<Rightarrow> string \<Rightarrow> string" where
  "new_line prev line =
     (if contains empty_call line then
        (case prev of
           Some prev_line \<Rightarrow>
             if contains ''Found'' prev_line \<or> contains ''Created'' prev_line
                \<or> contains ''Updated'' prev_line
             then replace empty_call msg_success line
             else if contains ''error'' (lower prev_line) \<or> contains ''fail'' (lower prev_line)
             then replace empty_call msg_error line
             else replace empty_call msg_processing line
         | None \<Rightarrow> replace empty_call msg_processing line)
      else line)"

definition message_for :: "string option \<Rightarrow> string" where
  "message_for prev =
     (case prev of
        Some prev_line \<Rightarrow>
          if contains ''Found'' prev_line \<or> contains ''Created'' prev_line
             \<or> contains ''Updated'' prev_line
          then msg_success
          else if contains ''error'' (lower prev_line) \<or> contains ''fail'' (lower prev_line)
          then msg_error
          else msg_processing
      | None \<Rightarrow> msg_processing)"

definition seen_prev :: "nat \<Rightarrow> string list \<Rightarrow> string option" where
  "seen_prev i ls = (if i = 0 then None else Some (ls ! (i - 1)))"

definition qualifying :: "string \<Rightarrow> bool" where
  "qualifying prev_line =
     (contains ''Found'' prev_line \<or> contains ''Created'' prev_line \<or> contains ''Updated'' prev_line
      \<or> contains ''error'' (lower prev_line) \<or> contains ''fail'' (lower prev_line))"

text \<open>The loop stopped after \<open>k\<close> turns, for the invariant of the loop.\<close>

definition run_upto :: "nat \<Rightarrow> string list \<Rightarrow> string list" where
  "run_upto k lines = foldl (\<lambda>ls i. fix_at i ls) lines [0..<k]"

text \<open>
  The number of lines of a content, and the shape of the lines \<open>readlines\<close> returns: every
  line but the last ends with its only line feed, the last may have none.
\<close>

definition num_lines :: "string \<Rightarrow> nat" where
  "num_lines content = length (split_lines content)"

definition terminated :: "string \<Rightarrow> bool" where
  "terminated l = (\<exists>b. l = b @ [nl] \<and> nl \<notin> set b)"

definition unterminated :: "string \<Rightarrow> bool" where
  "unterminated l = (l \<noteq> [] \<and> nl \<notin> set l)"

fun lines_ok :: "string list \<Rightarrow> bool" where
  "lines_ok [] = True"
| "lines_ok [l] = (terminated l \<or> unterminated l)"
| "lines_ok (l # l' # ls) = (terminated l \<and> lines_ok (l' # ls))"

section \<open>The loop of fix\_empty\_logs.py\<close>

lemma fix_at_update:
  assumes "i < length ls"
  shows "fix_at i ls = ls[i := new_line (seen_prev i ls) (ls ! i)]"
  using assms by (simp add: fix_at_def new_line_def seen_prev_def Let_def)

lemma run_upto_Suc: "run_upto (Suc k) lines = fix_at k (run_upto k lines)"
  by (simp add: run_upto_def)

lemma fix_at_length: "length (fix_at i ls) = length ls"
  by (simp add: fix_at_def Let_def)

lemma run_upto_length: "length (run_upto k lines) = length lines"
  by (induction k) (simp_all add: run_upto_Suc fix_at_length, simp add: run_upto_def)

lemma fix_at_other: "j \<noteq> i \<Longrightarrow> fix_at i ls ! j = ls ! j"
  by (simp add: fix_at_def Let_def)

lemma run_upto_later: "k \<le> i \<Longrightarrow> run_upto k lines ! i = lines ! i"
proof (induction k)
  case 0
  show ?case by (simp add: run_upto_def)
next
  case (Suc k)
  then show ?case by (simp add: run_upto_Suc fix_at_other)
qed

lemma run_upto_done:
  "i < k \<Longrightarrow> k \<le> length lines \<Longrightarrow>
   run_upto k lines ! i = new_line (seen_prev i (run_upto k lines)) (lines ! i)"
proof (induction k)
  case 0
  then show ?case by simp
next
  case (Suc k)
  let ?S = "run_upto k lines"
  have len: "k < length ?S" using Suc.prems by (simp add: run_upto_length)
  have step: "run_upto (Suc k) lines = ?S[k := new_line (seen_prev k ?S) (?S ! k)]"
    by (simp add: run_upto_Suc fix_at_update [OF len])
  show ?case
  proof (cases "i = k")
    case True
    have "seen_prev k (?S[k := new_line (seen_prev k ?S) (?S ! k)]) = seen_prev k ?S"
      by (simp add: seen_prev_def)
    moreover have "?S ! k = lines ! k" by (simp add: run_upto_later)
    ultimately show ?thesis using True len by (simp add: step)
  next
    case False
    then have ik: "i < k" using Suc.prems by simp
    then have ih: "?S ! i = new_line (seen_prev i ?S) (lines ! i)"
      using Suc.IH Suc.prems by simp
    have "seen_prev i (?S[k := new_line (seen_prev k ?S) (?S ! k)]) = seen_prev i ?S"
      using ik by (simp add: seen_prev_def)
    then show ?thesis using ik ih by (simp add: step)
  qed
qed

lemma fix_empty_logs_lines_length: "length (fix_empty_logs_lines lines) = length lines"
  using run_upto_length [of "length lines" lines]
  by (simp add: fix_empty_logs_lines_def run_upto_def)

lemma fix_empty_logs_lines_nth:
  assumes "i < length lines"
  shows "fix_empty_logs_lines lines ! i =
         new_line (seen_prev i (fix_empty_logs_lines lines)) (lines ! i)"
  using run_upto_done [of i "length lines" lines] assms
  by (simp add: fix_empty_logs_lines_def run_upto_def)

lemma new_line_message:
  "new_line prev line =
     (if contains empty_call line then replace empty_call (message_for prev) line else line)"
  by (simp add: new_line_def message_for_def split: option.splits)

lemma contains_Cons: "contains p s \<Longrightarrow> contains p (c # s)"
  by simp

lemma contains_append2: "contains p b \<Longrightarrow> contains p (a @ b)"
  by (induction a) simp_all

lemma contains_prefix: "prefix p s \<Longrightarrow> contains p s"
  by (cases s) simp_all

lemma contains_append1: "contains p a \<Longrightarrow> contains p (a @ b)"
proof (induction a)
  case Nil
  then show ?case by (simp add: contains_prefix)
next
  case (Cons c a)
  from Cons.prems have "prefix p (c # a) \<or> contains p a" by simp
  then show ?case
  proof
    assume "prefix p (c # a)"
    then have "prefix p ((c # a) @ b)" by (rule prefix_prefix)
    then show ?thesis by simp
  next
    assume "contains p a"
    then show ?thesis using Cons.IH by simp
  qed
qed

lemma replace_Cons_no_prefix:
  assumes "old \<noteq> []" and "\<not> prefix old (c # cs)"
  shows "replace old new (c # cs) = c # replace old new cs"
proof -
  obtain a as where o: "old = a # as" using assms(1) by (cases old) auto
  show ?thesis using assms(2) unfolding o by (simp only: replace.simps if_False)
qed

lemma replace_prefix:
  "old \<noteq> [] \<Longrightarrow> replace old new (old @ rest) = new @ replace old new rest"
  by (cases old) simp_all

lemma replace_Nil: "old \<noteq> [] \<Longrightarrow> replace old new [] = []"
  by (cases old) simp_all

lemma prefix_keep:
  assumes "old \<noteq> []"
  shows "f (hd old) \<notin> set K \<Longrightarrow> prefix K (map f cs) \<Longrightarrow> prefix K (map f (replace old new cs))"
proof (induction K arbitrary: cs)
  case Nil
  then show ?case by simp
next
  case (Cons k K)
  then obtain x cs' where cs: "cs = x # cs'" and k: "f x = k" and p: "prefix K (map f cs')"
    by (cases cs) auto
  have "\<not> prefix old (x # cs')"
  proof
    assume "prefix old (x # cs')"
    with assms have "hd old = x" by (cases old) auto
    with k Cons.prems(1) show False by simp
  qed
  then have "replace old new cs = x # replace old new cs'"
    using assms cs by (simp add: replace_Cons_no_prefix)
  moreover have "prefix K (map f (replace old new cs'))"
    using Cons.IH [OF _ p] Cons.prems(1) by simp
  ultimately show ?case using k by simp
qed

lemma contains_replace_keep:
  assumes skip: "\<And>rest. contains K (map f (old @ rest)) \<Longrightarrow> contains K (map f rest)"
    and old: "old \<noteq> []" and hd: "f (hd old) \<notin> set (tl K)" and K: "K \<noteq> []"
  shows "contains K (map f s) \<Longrightarrow> contains K (map f (replace old new s))"
proof (induction s rule: length_induct)
  case (1 s)
  show ?case
  proof (cases s)
    case Nil
    with 1 old show ?thesis by (simp add: replace_Nil)
  next
    case (Cons c cs)
    show ?thesis
    proof (cases "prefix old s")
      case True
      then obtain rest where s: "s = old @ rest" by (auto simp: prefix_def)
      have "length rest < length s" using s old by simp
      moreover have "contains K (map f rest)" using skip "1.prems" s by simp
      ultimately have "contains K (map f (replace old new rest))" using "1.IH" by blast
      then show ?thesis using s old by (simp add: replace_prefix contains_append2)
    next
      case False
      then have r: "replace old new s = c # replace old new cs"
        using Cons old by (simp add: replace_Cons_no_prefix)
      from "1.prems" Cons have "prefix K (f c # map f cs) \<or> contains K (map f cs)" by simp
      then show ?thesis
      proof
        assume "contains K (map f cs)"
        then have "contains K (map f (replace old new cs))" using "1.IH" Cons by simp
        then show ?thesis by (simp add: r)
      next
        assume p: "prefix K (f c # map f cs)"
        with K obtain K' where K': "K = f c # K'" and p': "prefix K' (map f cs)"
          by (cases K) auto
        have "prefix K' (map f (replace old new cs))"
          using prefix_keep [OF old _ p'] hd K' by simp
        then show ?thesis by (simp add: r K')
      qed
    qed
  qed
qed

lemma prefix_back:
  assumes "old \<noteq> []" "new \<noteq> []"
  shows "f (hd new) \<notin> set K \<Longrightarrow> prefix K (map f (replace old new cs)) \<Longrightarrow> prefix K (map f cs)"
proof (induction K arbitrary: cs)
  case Nil
  then show ?case by simp
next
  case (Cons k K)
  show ?case
  proof (cases cs)
    case Nil
    with Cons.prems assms show ?thesis by (simp add: replace_Nil)
  next
    case c: (Cons x cs')
    show ?thesis
    proof (cases "prefix old (x # cs')")
      case True
      then obtain rest where "x # cs' = old @ rest" by (auto simp: prefix_def)
      then have "replace old new cs = new @ replace old new rest"
        using assms c by (simp add: replace_prefix)
      with Cons.prems(2) assms(2) have "f (hd new) = k" by (cases new) auto
      with Cons.prems(1) show ?thesis by simp
    next
      case False
      then have r: "replace old new cs = x # replace old new cs'"
        using assms c by (simp add: replace_Cons_no_prefix)
      with Cons.prems(2) have k: "f x = k" and p: "prefix K (map f (replace old new cs'))"
        by auto
      have "prefix K (map f cs')" using Cons.IH [OF _ p] Cons.prems(1) by simp
      then show ?thesis using k c by simp
    qed
  qed
qed

lemma contains_replace_back:
  assumes skip: "\<And>rest. contains K (map f (new @ rest)) \<Longrightarrow> contains K (map f rest)"
    and old: "old \<noteq> []" and new: "new \<noteq> []" and hd: "f (hd new) \<notin> set (tl K)"
    and K: "K \<noteq> []"
  shows "contains K (map f (replace old new s)) \<Longrightarrow> contains K (map f s)"
proof (induction s rule: length_induct)
  case (1 s)
  show ?case
  proof (cases s)
    case Nil
    with 1 old show ?thesis by (simp add: replace_Nil)
  next
    case (Cons c cs)
    show ?thesis
    proof (cases "prefix old s")
      case True
      then obtain rest where s: "s = old @ rest" by (auto simp: prefix_def)
      have len: "length rest < length s" using s old by simp
      have "contains K (map f (new @ replace old new rest))"
        using "1.prems" s old by (simp add: replace_prefix)
      then have "contains K (map f (replace old new rest))" by (rule skip)
      then have "contains K (map f rest)" using "1.IH" len by blast
      then show ?thesis using s by (simp add: contains_append2)
    next
      case False
      then have r: "replace old new s = c # replace old new cs"
        using Cons old by (simp add: replace_Cons_no_prefix)
      from "1.prems" r
      have "prefix K (f c # map f (replace old new cs)) \<or> contains K (map f (replace old new cs))"
        by simp
      then show ?thesis
      proof
        assume "contains K (map f (replace old new cs))"
        then have "contains K (map f cs)" using "1.IH" Cons by simp
        then show ?thesis by (simp add: Cons)
      next
        assume p: "prefix K (f c # map f (replace old new cs))"
        with K obtain K' where K': "K = f c # K'" and p': "prefix K' (map f (replace old new cs))"
          by (cases K) auto
        have "prefix K' (map f cs)"
          using prefix_back [OF old new _ p'] hd K' by simp
        then show ?thesis by (simp add: Cons K')
      qed
    qed
  qed
qed

lemma lower_char_simps [simp]:
  "lower_char (CHR ''c'') = CHR ''c''" "lower_char (CHR ''o'') = CHR ''o''"
  "lower_char (CHR ''n'') = CHR ''n''" "lower_char (CHR ''s'') = CHR ''s''"
  "lower_char (CHR ''l'') = CHR ''l''" "lower_char (CHR ''e'') = CHR ''e''"
  "lower_char (CHR ''.'') = CHR ''.''" "lower_char (CHR ''g'') = CHR ''g''"
  "lower_char (CHR ''('') = CHR ''(''" "lower_char (CHR '')'') = CHR '')''"
  by (simp_all add: lower_char_def)

lemma success_keyword_kept:
  assumes "K = ''Found'' \<or> K = ''Created'' \<or> K = ''Updated''" and "contains K s"
  shows "contains K (replace empty_call new s)"
proof -
  have skip: "\<And>rest. contains K (map (\<lambda>x. x) (empty_call @ rest)) \<Longrightarrow> contains K (map (\<lambda>x. x) rest)"
    using assms(1) by (auto simp: empty_call_def)
  have "contains K (map (\<lambda>x. x) (replace empty_call new s))"
    by (rule contains_replace_keep [OF skip]) (use assms in \<open>auto simp: empty_call_def\<close>)
  then show ?thesis by simp
qed

lemma error_keyword_kept:
  assumes "K = ''error'' \<or> K = ''fail''" and "contains K (lower s)"
  shows "contains K (lower (replace empty_call new s))"
proof -
  have skip: "\<And>rest. contains K (map lower_char (empty_call @ rest)) \<Longrightarrow> contains K (map lower_char rest)"
    using assms(1) by (auto simp: empty_call_def)
  show ?thesis unfolding lower_def
    by (rule contains_replace_keep [OF skip]) (use assms in \<open>auto simp: empty_call_def lower_def\<close>)
qed

lemma success_keyword_not_created:
  assumes "K = ''Found'' \<or> K = ''Created'' \<or> K = ''Updated''"
    and "new = msg_success \<or> new = msg_error \<or> new = msg_processing"
    and "contains K (replace empty_call new s)"
  shows "contains K s"
proof -
  have skip: "\<And>rest. contains K (map (\<lambda>x. x) (new @ rest)) \<Longrightarrow> contains K (map (\<lambda>x. x) rest)"
    using assms(1,2) by (auto simp: msg_success_def msg_error_def msg_processing_def)
  have "contains K (map (\<lambda>x. x) s)"
    by (rule contains_replace_back [OF skip, where old = empty_call])
      (use assms in \<open>auto simp: empty_call_def msg_success_def msg_error_def msg_processing_def\<close>)
  then show ?thesis by simp
qed

lemma message_for_cases:
  "message_for prev = msg_success \<or> message_for prev = msg_error \<or> message_for prev = msg_processing"
  by (simp add: message_for_def split: option.splits)

lemma new_line_keeps_success:
  assumes "K = ''Found'' \<or> K = ''Created'' \<or> K = ''Updated''" and "contains K line"
  shows "contains K (new_line prev line)"
  using success_keyword_kept [OF assms] assms(2) by (simp add: new_line_message)

lemma new_line_keeps_error:
  assumes "K = ''error'' \<or> K = ''fail''" and "contains K (lower line)"
  shows "contains K (lower (new_line prev line))"
  using error_keyword_kept [OF assms] assms(2) by (simp add: new_line_message)

lemma new_line_no_new_success:
  assumes "K = ''Found'' \<or> K = ''Created'' \<or> K = ''Updated''" and "contains K (new_line prev line)"
  shows "contains K line"
  using success_keyword_not_created [OF assms(1) message_for_cases, of prev line] assms(2)
  by (simp add: new_line_message split: if_splits)

lemma seen_prev_out:
  assumes "0 < i" "i < length lines"
  shows "seen_prev i (fix_empty_logs_lines lines) =
         Some (new_line (seen_prev (i - 1) (fix_empty_logs_lines lines)) (lines ! (i - 1)))"
  using assms fix_empty_logs_lines_nth [of "i - 1" lines] by (simp add: seen_prev_def)

subsection \<open>The message chosen from the preceding line\<close>

text \<open>
  Claim C3. Whenever a line that contains the empty logging call \<^verbatim>\<open>console.log()\<close> comes
  right after a line of the input that contains \<^verbatim>\<open>Found\<close>, \<^verbatim>\<open>Created\<close> or
  \<^verbatim>\<open>Updated\<close>, the repaired line is the input line with every empty call replaced
  by the call carrying \<^verbatim>\<open>Operation completed successfully\<close>. The script reads the
  preceding line from the list it is updating, so the proof needs that the repair of that
  line keeps its keyword.
\<close>

theorem success_message_after_success_keyword:
  assumes "0 < i" and "i < length lines"
    and "contains empty_call (lines ! i)"
    and "contains ''Found'' (lines ! (i - 1)) \<or> contains ''Created'' (lines ! (i - 1))
         \<or> contains ''Updated'' (lines ! (i - 1))"
  shows "fix_empty_logs_lines lines ! i = replace empty_call msg_success (lines ! i)"
proof -
  let ?p = "new_line (seen_prev (i - 1) (fix_empty_logs_lines lines)) (lines ! (i - 1))"
  have "contains ''Found'' ?p \<or> contains ''Created'' ?p \<or> contains ''Updated'' ?p"
    using assms(4) new_line_keeps_success by blast
  then have "message_for (Some ?p) = msg_success" by (simp add: message_for_def)
  then show ?thesis
    using fix_empty_logs_lines_nth [OF assms(2)] seen_prev_out [OF assms(1,2)] assms(3)
    by (simp add: new_line_message)
qed

theorem success_message_after_success_keyword_witness:
  \<open>(0::nat) < 1 \<and> 1 < length [''console.log("Created record");'' @ [nl], ''console.log();'']
   \<and> contains empty_call ([''console.log("Created record");'' @ [nl], ''console.log();''] ! 1)
   \<and> contains ''Created'' ([''console.log("Created record");'' @ [nl], ''console.log();''] ! (1 - 1))
   \<and> fix_empty_logs_lines [''console.log("Created record");'' @ [nl], ''console.log();''] ! 1
       = ''console.log("Operation completed successfully");''\<close>
  using success_message_after_success_keyword
    [of 1 \<open>[''console.log("Created record");'' @ [nl], ''console.log();'']\<close>]
  by (simp add: empty_call_def msg_success_def)

lemma created_record_example:
  \<open>fix_empty_logs (''console.log("Created record");'' @ [nl] @ ''console.log();'')
   = ''console.log("Created record");'' @ [nl] @ ''console.log("Operation completed successfully");''\<close>
  by code_simp

text \<open>
  Claim C4 says that a preceding line containing \<^verbatim>\<open>error\<close> or \<^verbatim>\<open>fail\<close> in any
  letter case gives the message \<^verbatim>\<open>Error logged\<close>. The script tests the three success
  keywords first, so a preceding line that has both kinds of keyword gives the success
  message instead.
\<close>

theorem error_keyword_overridden_by_success_keyword:
  \<open>contains empty_call ([''console.log("Found error");'', ''console.log();''] ! 1)
   \<and> contains ''error'' (lower ([''console.log("Found error");'', ''console.log();''] ! 0))
   \<and> fix_empty_logs_lines [''console.log("Found error");'', ''console.log();''] ! 1
       = ''console.log("Operation completed successfully");''
   \<and> fix_empty_logs_lines [''console.log("Found error");'', ''console.log();''] ! 1
       \<noteq> replace empty_call msg_error ([''console.log("Found error");'', ''console.log();''] ! 1)\<close>
  by code_simp

text \<open>
  Claim C4, amended: when the preceding line of the input contains \<^verbatim>\<open>error\<close> or
  \<^verbatim>\<open>fail\<close> in any letter case and none of \<^verbatim>\<open>Found\<close>, \<^verbatim>\<open>Created\<close>,
  \<^verbatim>\<open>Updated\<close>, every empty call of the line is replaced by the call carrying
  \<^verbatim>\<open>Error logged\<close>.
\<close>

theorem error_message_after_error_keyword:
  assumes "0 < i" and "i < length lines"
    and "contains empty_call (lines ! i)"
    and "contains ''error'' (lower (lines ! (i - 1))) \<or> contains ''fail'' (lower (lines ! (i - 1)))"
    and "\<not> contains ''Found'' (lines ! (i - 1))" and "\<not> contains ''Created'' (lines ! (i - 1))"
    and "\<not> contains ''Updated'' (lines ! (i - 1))"
  shows "fix_empty_logs_lines lines ! i = replace empty_call msg_error (lines ! i)"
proof -
  let ?p = "new_line (seen_prev (i - 1) (fix_empty_logs_lines lines)) (lines ! (i - 1))"
  have no: "\<not> contains ''Found'' ?p" "\<not> contains ''Created'' ?p" "\<not> contains ''Updated'' ?p"
    using assms(5-7) new_line_no_new_success by blast+
  have "contains ''error'' (lower ?p) \<or> contains ''fail'' (lower ?p)"
    using assms(4) new_line_keeps_error by blast
  with no have "message_for (Some ?p) = msg_error" by (simp add: message_for_def)
  then show ?thesis
    using fix_empty_logs_lines_nth [OF assms(2)] seen_prev_out [OF assms(1,2)] assms(3)
    by (simp add: new_line_message)
qed

theorem error_message_after_error_keyword_witness:
  \<open>(0::nat) < 1 \<and> 1 < length [''// request FAILED'', ''  console.log();'']
   \<and> contains empty_call ([''// request FAILED'', ''  console.log();''] ! 1)
   \<and> contains ''fail'' (lower ([''// request FAILED'', ''  console.log();''] ! (1 - 1)))
   \<and> \<not> contains ''Found'' ([''// request FAILED'', ''  console.log();''] ! (1 - 1))
   \<and> \<not> contains ''Created'' ([''// request FAILED'', ''  console.log();''] ! (1 - 1))
   \<and> \<not> contains ''Updated'' ([''// request FAILED'', ''  console.log();''] ! (1 - 1))
   \<and> fix_empty_logs_lines [''// request FAILED'', ''  console.log();''] ! 1
       = ''  console.log("Error logged");''\<close>
proof -
  have hyps: \<open>contains ''fail'' (lower ([''// request FAILED'', ''  console.log();''] ! (1 - 1)))\<close>
    \<open>\<not> contains ''Found'' ([''// request FAILED'', ''  console.log();''] ! (1 - 1))\<close>
    \<open>\<not> contains ''Created'' ([''// request FAILED'', ''  console.log();''] ! (1 - 1))\<close>
    \<open>\<not> contains ''Updated'' ([''// request FAILED'', ''  console.log();''] ! (1 - 1))\<close>
    \<open>contains empty_call ([''// request FAILED'', ''  console.log();''] ! 1)\<close>
    by code_simp+
  have val: \<open>replace empty_call msg_error ([''// request FAILED'', ''  console.log();''] ! 1)
     = ''  console.log("Error logged");''\<close>
    by code_simp
  show ?thesis
    using error_message_after_error_keyword
      [of 1 \<open>[''// request FAILED'', ''  console.log();'']\<close>] hyps val
    by simp
qed

text \<open>
  Claim C5 says that an empty call whose preceding line has none of the keywords gets the
  message \<^verbatim>\<open>Processing...\<close>. The preceding line the script inspects is the one it has
  already rewritten: after a line containing \<^verbatim>\<open>fail\<close>, a first empty call becomes
  \<^verbatim>\<open>console.log("Error logged")\<close>, which itself contains \<^verbatim>\<open>error\<close> in lower
  case, so a second empty call right below it gets \<^verbatim>\<open>Error logged\<close> too, although
  its preceding line in the input has no keyword.
\<close>

theorem processing_message_counterexample:
  \<open>contains empty_call ([''fail'', ''console.log()'', ''console.log()''] ! 2)
   \<and> \<not> qualifying ([''fail'', ''console.log()'', ''console.log()''] ! 1)
   \<and> fix_empty_logs_lines [''fail'', ''console.log()'', ''console.log()''] ! 2
       = ''console.log("Error logged")''
   \<and> fix_empty_logs_lines [''fail'', ''console.log()'', ''console.log()''] ! 2
       \<noteq> replace empty_call msg_processing ([''fail'', ''console.log()'', ''console.log()''] ! 2)\<close>
  by code_simp

text \<open>
  Claim C5, amended: an empty call on the first line, or on a line whose preceding line
  as the pass has left it contains none of \<^verbatim>\<open>Found\<close>, \<^verbatim>\<open>Created\<close>,
  \<^verbatim>\<open>Updated\<close> and, in any letter case, \<^verbatim>\<open>error\<close> or \<^verbatim>\<open>fail\<close>, is replaced
  by the call carrying \<^verbatim>\<open>Processing...\<close>. A preceding line without an empty call is
  left as it was, so for such a line this is the condition on the input.
\<close>

theorem processing_message_by_default:
  assumes "i < length lines" and "contains empty_call (lines ! i)"
    and "i = 0 \<or> \<not> qualifying (fix_empty_logs_lines lines ! (i - 1))"
  shows "fix_empty_logs_lines lines ! i = replace empty_call msg_processing (lines ! i)"
proof -
  have "message_for (seen_prev i (fix_empty_logs_lines lines)) = msg_processing"
    using assms(3) by (auto simp: seen_prev_def message_for_def qualifying_def)
  then show ?thesis
    using fix_empty_logs_lines_nth [OF assms(1)] assms(2) by (simp add: new_line_message)
qed

theorem processing_message_by_default_witness:
  \<open>(1::nat) < length [''const x = 1;'', ''console.log();'']
   \<and> contains empty_call ([''const x = 1;'', ''console.log();''] ! 1)
   \<and> \<not> qualifying (fix_empty_logs_lines [''const x = 1;'', ''console.log();''] ! (1 - 1))
   \<and> fix_empty_logs_lines [''const x = 1;'', ''console.log();''] ! 1
       = ''console.log("Processing...");''\<close>
proof -
  have hyps: \<open>contains empty_call ([''const x = 1;'', ''console.log();''] ! 1)\<close>
    \<open>\<not> qualifying (fix_empty_logs_lines [''const x = 1;'', ''console.log();''] ! (1 - 1))\<close>
    by code_simp+
  have val: \<open>replace empty_call msg_processing ([''const x = 1;'', ''console.log();''] ! 1)
     = ''console.log("Processing...");''\<close>
    by code_simp
  show ?thesis
    using processing_message_by_default [of 1 \<open>[''const x = 1;'', ''console.log();'']\<close>] hyps val
    by simp
qed

subsection \<open>Several empty calls on one line\<close>

lemma replace_absent:
  assumes "old \<noteq> []"
  shows "\<not> contains old x \<Longrightarrow> replace old new x = x"
proof (induction x)
  case Nil
  then show ?case using assms by (simp add: replace_Nil)
next
  case (Cons c x)
  then have "\<not> prefix old (c # x)" and "\<not> contains old x" by simp_all
  then show ?case using Cons.IH assms by (simp add: replace_Cons_no_prefix)
qed

lemma no_prefix_across:
  assumes a: "a \<notin> set as" and x: "\<not> contains (a # as) x"
  shows "x \<noteq> [] \<Longrightarrow> \<not> prefix (a # as) (x @ (a # as) @ rest)"
proof
  assume ne: "x \<noteq> []" and p: "prefix (a # as) (x @ (a # as) @ rest)"
  from p have "prefix (a # as) x \<or> (\<exists>us. a # as = x @ us \<and> prefix us ((a # as) @ rest))"
    by (simp only: prefix_append)
  then show False
  proof
    assume "prefix (a # as) x"
    then show False using x contains_prefix by blast
  next
    assume "\<exists>us. a # as = x @ us \<and> prefix us ((a # as) @ rest)"
    then obtain us where eq: "a # as = x @ us" and pu: "prefix us ((a # as) @ rest)" by blast
    show False
    proof (cases us)
      case Nil
      with eq have "prefix (a # as) x" by simp
      then show False using x contains_prefix by blast
    next
      case (Cons u us')
      with pu have "u = a" by simp
      moreover from eq ne Cons have "u \<in> set as" by (cases x) auto
      ultimately show False using a by simp
    qed
  qed
qed

lemma replace_segment:
  assumes a: "a \<notin> set as"
  shows "\<not> contains (a # as) x \<Longrightarrow>
         replace (a # as) new (x @ (a # as) @ rest) = x @ new @ replace (a # as) new rest"
proof (induction x)
  case Nil
  show ?case using replace_prefix [of "a # as" new rest] by simp
next
  case (Cons c x)
  have "\<not> prefix (a # as) ((c # x) @ (a # as) @ rest)"
    using no_prefix_across [OF a Cons.prems] by simp
  then have "replace (a # as) new ((c # x) @ (a # as) @ rest)
             = c # replace (a # as) new (x @ (a # as) @ rest)"
    using replace_Cons_no_prefix [of "a # as" c "x @ (a # as) @ rest" new] by simp
  moreover have "\<not> contains (a # as) x" using Cons.prems by simp
  ultimately show ?case using Cons.IH by simp
qed

lemma replace_join:
  assumes a: "a \<notin> set as"
  shows "\<forall>seg \<in> set segs. \<not> contains (a # as) seg \<Longrightarrow>
         replace (a # as) new (join (a # as) segs) = join new segs"
proof (induction "a # as" segs rule: join.induct)
  case 1
  show ?case by simp
next
  case (2 x)
  then show ?case by (simp add: replace_absent)
next
  case (3 x y ys)
  then show ?case using replace_segment [OF a, of x new "join (a # as) (y # ys)"] by simp
qed

lemma replace_empty_call_join:
  "\<forall>seg \<in> set segs. \<not> contains empty_call seg \<Longrightarrow>
   replace empty_call new (join empty_call segs) = join new segs"
  unfolding empty_call_def by (rule replace_join [of "CHR ''c''" "''onsole.log()''", simplified])

lemma contains_join:
  "2 \<le> length segs \<Longrightarrow> contains sep (join sep segs)"
proof (induction sep segs rule: join.induct)
  case (3 sep x y ys)
  have "contains sep (sep @ join sep (y # ys))" by (simp add: contains_prefix)
  then show ?case by (simp add: contains_append2)
qed simp_all

text \<open>
  Claim C10. A line is written as the pieces \<open>segs\<close> between its occurrences of
  \<^verbatim>\<open>console.log()\<close>: joining the pieces with the empty call gives the line, and no
  piece contains the empty call. The repaired line is the same pieces joined with one
  message, chosen once from the preceding line the script reads; the pieces, and with them
  the indentation, are unchanged. The message is one of the three the script knows.
\<close>

theorem every_empty_call_on_a_line_replaced:
  assumes "i < length lines" and "lines ! i = join empty_call segs"
    and "\<forall>seg \<in> set segs. \<not> contains empty_call seg"
  shows "fix_empty_logs_lines lines ! i
         = join (message_for (seen_prev i (fix_empty_logs_lines lines))) segs
         \<and> message_for (seen_prev i (fix_empty_logs_lines lines))
             \<in> {msg_success, msg_error, msg_processing}"
proof -
  have eq: "fix_empty_logs_lines lines ! i
         = join (message_for (seen_prev i (fix_empty_logs_lines lines))) segs"
  proof (cases "contains empty_call (lines ! i)")
  case True
  then show ?thesis
    using fix_empty_logs_lines_nth [OF assms(1)] assms(2) replace_empty_call_join [OF assms(3)]
    by (simp add: new_line_message)
next
  case False
  then have "\<not> 2 \<le> length segs" using assms(2) contains_join by metis
  then have "segs = [] \<or> (\<exists>x. segs = [x])" by (cases segs) (auto simp: not_le less_Suc_eq_le)
  then have "join (message_for (seen_prev i (fix_empty_logs_lines lines))) segs = join empty_call segs"
    by auto
  then show ?thesis
    using fix_empty_logs_lines_nth [OF assms(1)] assms(2) False by (simp add: new_line_message)
  qed
  show ?thesis using eq message_for_cases by blast
qed

theorem every_empty_call_on_a_line_replaced_witness:
  \<open>(1::nat) < length [''// Updated'', ''  console.log(); console.log();'']
   \<and> [''// Updated'', ''  console.log(); console.log();''] ! 1
       = join empty_call [''  '', ''; '', '';'']
   \<and> \<not> contains empty_call ''  '' \<and> \<not> contains empty_call ''; ''
   \<and> \<not> contains empty_call '';''
   \<and> fix_empty_logs_lines [''// Updated'', ''  console.log(); console.log();''] ! 1
       = ''  console.log("Operation completed successfully"); console.log("Operation completed successfully");''\<close>
proof -
  have hyps: \<open>[''// Updated'', ''  console.log(); console.log();''] ! 1
       = join empty_call [''  '', ''; '', '';'']\<close>
    \<open>\<forall>seg \<in> set [''  '', ''; '', '';'']. \<not> contains empty_call seg\<close>
    by code_simp+
  have val: \<open>join (message_for (seen_prev 1
        (fix_empty_logs_lines [''// Updated'', ''  console.log(); console.log();''])))
        [''  '', ''; '', '';'']
     = ''  console.log("Operation completed successfully"); console.log("Operation completed successfully");''\<close>
    by code_simp
  show ?thesis
    using every_empty_call_on_a_line_replaced
      [of 1 \<open>[''// Updated'', ''  console.log(); console.log();'']\<close> \<open>[''  '', ''; '', '';'']\<close>]
      hyps val
    by simp
qed

section \<open>Facts about the matcher\<close>

lemma first_some_SomeD:
  "first_some f ns = Some r \<Longrightarrow> \<exists>n \<in> set ns. f n = Some r"
  by (induction ns) (auto split: option.splits)

lemma first_some_all_None:
  "(\<And>n. n \<in> set ns \<Longrightarrow> f n = None) \<Longrightarrow> first_some f ns = None"
  by (induction ns) auto

lemma first_some_longest:
  assumes "\<And>n. n < m \<Longrightarrow> f n = None"
  shows "first_some f (rev [lo..<Suc m]) = (if lo \<le> m then f m else None)"
proof (cases "lo \<le> m")
  case True
  then have "rev [lo..<Suc m] = m # rev [lo..<m]" by simp
  moreover have "first_some f (rev [lo..<m]) = None"
    by (rule first_some_all_None) (use assms in auto)
  ultimately show ?thesis using True by (simp split: option.splits)
next
  case False
  then show ?thesis by simp
qed

lemma run_Nil: "run c [] = 0"
  by (simp add: run_def)

lemma run_Cons: "run c (x # xs) = (if x = c then 0 else Suc (run c xs))"
  by (simp add: run_def)

lemma run_le: "run c s \<le> length s"
  by (simp add: run_def length_takeWhile_le)

lemma nth_in_run: "n < run c s \<Longrightarrow> s ! n \<noteq> c"
proof (induction s arbitrary: n)
  case Nil
  then show ?case by (simp add: run_Nil)
next
  case (Cons x xs)
  then show ?case by (cases n) (auto simp: run_Cons split: if_splits)
qed

lemma take_run_free: "n \<le> run c s \<Longrightarrow> c \<notin> set (take n s)"
proof (induction s arbitrary: n)
  case Nil
  then show ?case by simp
next
  case (Cons x xs)
  then show ?case by (cases n) (auto simp: run_Cons split: if_splits)
qed

lemma run_append: "c \<notin> set g \<Longrightarrow> run c (g @ c # rest) = length g"
  by (induction g) (auto simp: run_Cons)

lemma rmatch_LitD:
  assumes "rmatch (Lit l # its) s = Some (gs, r)"
  obtains s' where "s = l @ s'" and "rmatch its s' = Some (gs, r)"
  using assms by (auto simp: prefix_def split: if_splits)

lemma rmatch_GroupD:
  assumes "rmatch (Group c # its) s = Some (gs, r)"
  obtains g s' gs' where "s = g @ s'" and "g \<noteq> []" and "c \<notin> set g" and "gs = g # gs'"
    and "rmatch its s' = Some (gs', r)"
proof -
  from assms
  have "first_some (\<lambda>n. map_option (\<lambda>(gs, r). (take n s # gs, r)) (rmatch its (drop n s)))
          (rev [1..<Suc (run c s)]) = Some (gs, r)"
    by (simp only: rmatch.simps item.case)
  then obtain n where n: "n \<in> set (rev [1..<Suc (run c s)])"
    and m: "map_option (\<lambda>(gs, r). (take n s # gs, r)) (rmatch its (drop n s)) = Some (gs, r)"
    by (blast dest: first_some_SomeD)
  from m obtain gs' where g: "gs = take n s # gs'" and r: "rmatch its (drop n s) = Some (gs', r)"
    by auto
  from n have n1: "1 \<le> n" and n2: "n \<le> run c s" by auto
  have "take n s \<noteq> []" using n1 n2 run_le [of c s] by auto
  moreover have "c \<notin> set (take n s)" using n2 by (rule take_run_free)
  moreover have "s = take n s @ drop n s" by simp
  ultimately show ?thesis using that g r by blast
qed

lemma rmatch_ManyD:
  assumes "rmatch (Many c # its) s = Some (gs, r)"
  obtains u s' where "s = u @ s'" and "c \<notin> set u" and "rmatch its s' = Some (gs, r)"
proof -
  from assms
  have "first_some (\<lambda>n. rmatch its (drop n s)) (rev [0..<Suc (run c s)]) = Some (gs, r)"
    by (simp only: rmatch.simps item.case)
  then obtain n where n: "n \<in> set (rev [0..<Suc (run c s)])"
    and r: "rmatch its (drop n s) = Some (gs, r)"
    by (blast dest: first_some_SomeD)
  from n have "n \<le> run c s" by auto
  then have "c \<notin> set (take n s)" by (rule take_run_free)
  moreover have "s = take n s @ drop n s" by simp
  ultimately show ?thesis using that r by blast
qed

lemma rmatch_sound:
  "rmatch p s = Some (gs, r) \<Longrightarrow> (\<forall>g \<in> set gs. set g \<subseteq> set s) \<and> (\<exists>m. s = m @ r)"
proof (induction p arbitrary: s gs)
  case Nil
  then show ?case by simp
next
  case (Cons it its)
  show ?case
  proof (cases it)
    case (Lit l)
    from Cons.prems [unfolded Lit]
    obtain s' where s: "s = l @ s'" and r: "rmatch its s' = Some (gs, r)"
      by (rule rmatch_LitD)
    from Cons.IH [OF r] show ?thesis using s by auto
  next
    case (Many c)
    from Cons.prems [unfolded Many]
    obtain u s' where s: "s = u @ s'" and r: "rmatch its s' = Some (gs, r)"
      by (rule rmatch_ManyD)
    from Cons.IH [OF r] show ?thesis using s by auto
  next
    case (Group c)
    from Cons.prems [unfolded Group]
    obtain g s' gs' where s: "s = g @ s'" and g: "gs = g # gs'"
      and r: "rmatch its s' = Some (gs', r)"
      by (rule rmatch_GroupD)
    from Cons.IH [OF r] show ?thesis using s g by auto
  qed
qed

lemma re_search_SomeD:
  "re_search p s = Some gs \<Longrightarrow> \<exists>pre s' r. s = pre @ s' \<and> rmatch p s' = Some (gs, r)"
proof (induction s)
  case Nil
  then show ?case by auto
next
  case (Cons c cs)
  show ?case
  proof (cases "rmatch p (c # cs)")
    case None
    with Cons.prems have "re_search p cs = Some gs" by simp
    from Cons.IH [OF this] obtain pre s' r where "cs = pre @ s'" "rmatch p s' = Some (gs, r)"
      by blast
    then have "c # cs = (c # pre) @ s'" by simp
    then show ?thesis using \<open>rmatch p s' = Some (gs, r)\<close> by blast
  next
    case (Some a)
    with Cons.prems have "rmatch p (c # cs) = Some (gs, snd a)" by (cases a) auto
    then show ?thesis by (metis append_Nil)
  qed
qed

lemma rmatch_Lit_append: "rmatch (Lit l # its) (l @ s) = rmatch its s"
  by simp

lemma rmatch_Lit_mismatch:
  "\<not> prefix [h] s \<Longrightarrow> rmatch (Lit (h # l) # its) s = None"
  by (cases s) auto

lemma drop_in_run:
  assumes "n < run c s"
  shows "\<not> prefix [c] (drop n s)"
proof -
  have n: "n < length s" using assms run_le [of c s] by simp
  have "s ! n \<noteq> c" using assms by (rule nth_in_run)
  moreover have "drop n s = s ! n # drop (Suc n) s" using n by (simp add: Cons_nth_drop_Suc)
  ultimately show ?thesis by simp
qed

lemma rmatch_Group_then_Lit:
  assumes "c \<notin> set g"
  shows "rmatch (Group c # Lit (c # l) # its) (g @ c # rest)
         = (if g = [] then None
            else map_option (\<lambda>(gs, r). (g # gs, r)) (rmatch (Lit (c # l) # its) (c # rest)))"
proof -
  let ?s = "g @ c # rest"
  let ?f = "\<lambda>n. map_option (\<lambda>(gs, r). (take n ?s # gs, r)) (rmatch (Lit (c # l) # its) (drop n ?s))"
  have run: "run c ?s = length g" using assms by (rule run_append)
  have none: "\<And>n. n < length g \<Longrightarrow> ?f n = None"
    using drop_in_run [of _ c ?s] run by (simp add: rmatch_Lit_mismatch del: rmatch.simps)
  have "rmatch (Group c # Lit (c # l) # its) ?s = first_some ?f (rev [1..<Suc (length g)])"
    using run by simp
  also have "\<dots> = (if 1 \<le> length g then ?f (length g) else None)"
    using none by (rule first_some_longest)
  finally show ?thesis by (cases g) (simp_all del: rmatch.simps)
qed

lemma rmatch_Many_then_Lit:
  assumes "c \<notin> set u"
  shows "rmatch (Many c # Lit (c # l) # its) (u @ c # rest)
         = rmatch (Lit (c # l) # its) (c # rest)"
proof -
  let ?s = "u @ c # rest"
  let ?f = "\<lambda>n. rmatch (Lit (c # l) # its) (drop n ?s)"
  have run: "run c ?s = length u" using assms by (rule run_append)
  have none: "\<And>n. n < length u \<Longrightarrow> ?f n = None"
    using drop_in_run [of _ c ?s] run by (simp add: rmatch_Lit_mismatch del: rmatch.simps)
  have "rmatch (Many c # Lit (c # l) # its) ?s = first_some ?f (rev [0..<Suc (length u)])"
    using run by simp
  also have "\<dots> = (if 0 \<le> length u then ?f (length u) else None)"
    using none by (rule first_some_longest)
  finally show ?thesis by (simp del: rmatch.simps)
qed

section \<open>Occurrences, search and substitution\<close>

lemma contains_iff: "contains p s \<longleftrightarrow> (\<exists>a b. s = a @ p @ b)"
proof
  show "contains p s \<Longrightarrow> \<exists>a b. s = a @ p @ b"
  proof (induction s)
    case Nil
    then show ?case by simp
  next
    case (Cons c cs)
    from Cons.prems have "prefix p (c # cs) \<or> contains p cs" by simp
    then show ?case
    proof
      assume "prefix p (c # cs)"
      then obtain b where "c # cs = p @ b" by (auto simp: prefix_def)
      then have "c # cs = [] @ p @ b" by simp
      then show ?thesis by blast
    next
      assume "contains p cs"
      then obtain a b where "cs = a @ p @ b" using Cons.IH by blast
      then have "c # cs = (c # a) @ p @ b" by simp
      then show ?thesis by blast
    qed
  qed
next
  assume "\<exists>a b. s = a @ p @ b"
  then obtain a b where s: "s = a @ p @ b" by blast
  have "contains p (p @ b)" by (rule contains_prefix) simp
  then show "contains p s" unfolding s by (rule contains_append2)
qed

lemma contains_mid: "contains p (a @ p @ b)"
  using contains_iff by blast

lemma contains_part2: "contains (a @ b) s \<Longrightarrow> contains b s"
proof -
  assume "contains (a @ b) s"
  then obtain x y where "s = x @ (a @ b) @ y" using contains_iff by blast
  then have "s = (x @ a) @ b @ y" by simp
  then show ?thesis using contains_iff by blast
qed

lemma contains_set: "contains p s \<Longrightarrow> set p \<subseteq> set s"
  using contains_iff [of p s] by auto

lemma prefix_before_char:
  assumes "c \<notin> set p"
  shows "prefix p (u @ c # b) \<longleftrightarrow> prefix p u"
proof
  assume "prefix p (u @ c # b)"
  then have "prefix p u \<or> (\<exists>us. p = u @ us \<and> prefix us (c # b))"
    by (simp only: prefix_append)
  then show "prefix p u"
  proof
    assume "\<exists>us. p = u @ us \<and> prefix us (c # b)"
    then obtain us where p: "p = u @ us" and us: "prefix us (c # b)" by blast
    from us assms p have "us = []" by (cases us) auto
    with p show ?thesis by simp
  qed
next
  assume "prefix p u"
  then show "prefix p (u @ c # b)" by (rule prefix_prefix)
qed

lemma contains_char_split:
  assumes "c \<notin> set p"
  shows "contains p (a @ c # b) \<longleftrightarrow> contains p a \<or> contains p b"
proof (induction a)
  case Nil
  show ?case using assms by (cases p) auto
next
  case (Cons x a)
  have "prefix p ((x # a) @ c # b) \<longleftrightarrow> prefix p (x # a)"
    using assms by (rule prefix_before_char)
  then show ?case using Cons.IH by auto
qed

lemma re_search_found:
  assumes "rmatch p (c # cs) = Some (gs, r)"
  shows "re_search p (c # cs) = Some gs"
  using assms by simp

lemma re_search_skip:
  assumes "h \<notin> set pre"
  shows "re_search (Lit (h # l) # its) (pre @ c # cs) = re_search (Lit (h # l) # its) (c # cs)"
  using assms
proof (induction pre)
  case Nil
  show ?case by simp
next
  case (Cons x pre)
  then have "rmatch (Lit (h # l) # its) (x # pre @ c # cs) = None"
    by (intro rmatch_Lit_mismatch) auto
  then show ?case using Cons by (simp del: rmatch.simps)
qed

lemma re_search_skip_unmatched:
  assumes "\<forall>i<length pre. rmatch p (drop i (pre @ c # cs)) = None"
  shows "re_search p (pre @ c # cs) = re_search p (c # cs)"
  using assms
proof (induction pre)
  case Nil
  show ?case by simp
next
  case (Cons x pre)
  have "rmatch p (drop 0 ((x # pre) @ c # cs)) = None" using Cons.prems by blast
  then have first: "rmatch p (x # pre @ c # cs) = None" by simp
  have "\<forall>i<length pre. rmatch p (drop i (pre @ c # cs)) = None"
  proof (intro allI impI)
    fix i assume "i < length pre"
    then have "Suc i < length (x # pre)" by simp
    then have "rmatch p (drop (Suc i) ((x # pre) @ c # cs)) = None" using Cons.prems by blast
    then show "rmatch p (drop i (pre @ c # cs)) = None" by simp
  qed
  then have "re_search p (pre @ c # cs) = re_search p (c # cs)" by (rule Cons.IH)
  then show ?case using first by (simp del: rmatch.simps)
qed

lemma contains_drop: "contains p (drop i s) \<Longrightarrow> contains p s"
  using contains_append2 [of p "drop i s" "take i s"] by simp

lemma re_sub_absent:
  assumes "l \<noteq> []"
  shows "\<not> contains l s \<Longrightarrow> re_sub (Lit (l @ l') # its) repl s = s"
proof (induction s)
  case Nil
  then show ?case using assms by simp
next
  case (Cons c cs)
  then have "\<not> prefix l (c # cs)" and cs: "\<not> contains l cs" by simp_all
  then have "\<not> prefix (l @ l') (c # cs)" using append_prefixD by blast
  then have "rmatch (Lit (l @ l') # its) (c # cs) = None" by simp
  then show ?case using Cons.IH [OF cs] by (simp del: rmatch.simps)
qed

lemma replace_char_filter: "replace [c] [] s = filter (\<lambda>x. x \<noteq> c) s"
  by (induction s) auto

lemma rmatch_double:
  assumes "L \<noteq> []" "CHR 0x60 \<notin> set L" "E \<noteq> []" "CHR '')'' \<notin> set E"
  shows "rmatch double_pattern (double_wrapped L E @ post) = Some ([L, E], post)"
proof -
  have 1: "rmatch double_pattern (double_wrapped L E @ post)
     = rmatch [Group (CHR 0x60), Lit (CHR 0x60 # '')} ${JSON.stringify(''), Group (CHR '')''),
               Lit (CHR '')'' # ''}`);'')]
         (L @ CHR 0x60 # ('')} ${JSON.stringify('' @ E @ CHR '')'' # ''}`);'' @ post))"
    unfolding double_pattern_def double_wrapped_def
    using rmatch_Lit_append [of "''console.log(`${JSON.stringify(`''"] by simp
  have 2: "rmatch [Group (CHR '')''), Lit (CHR '')'' # ''}`);'')] (E @ CHR '')'' # ''}`);'' @ post)
     = Some ([E], post)"
    using assms(3,4) by (simp add: rmatch_Group_then_Lit del: rmatch.simps) simp
  have 3: "rmatch [Lit (CHR 0x60 # '')} ${JSON.stringify(''), Group (CHR '')''), Lit (CHR '')'' # ''}`);'')]
        (CHR 0x60 # ('')} ${JSON.stringify('' @ E @ CHR '')'' # ''}`);'' @ post))
     = Some ([E], post)"
    using 2 rmatch_Lit_append [of "CHR 0x60 # '')} ${JSON.stringify(''" _ "E @ CHR '')'' # ''}`);'' @ post"]
    by (simp del: rmatch.simps)
  show ?thesis
    unfolding 1 using assms(1,2) 3 by (simp add: rmatch_Group_then_Lit del: rmatch.simps)
qed

lemma rmatch_single:
  assumes "T \<noteq> []" "CHR 0x60 \<notin> set T"
  shows "rmatch single_pattern (single_wrapped T @ post) = Some ([T], post)"
proof -
  have 1: "rmatch single_pattern (single_wrapped T @ post)
     = rmatch [Group (CHR 0x60), Lit (CHR 0x60 # '')}`);'')] (T @ CHR 0x60 # ('')}`);'' @ post))"
    unfolding single_pattern_def single_wrapped_def
    using rmatch_Lit_append [of "''console.log(`${JSON.stringify(`''"] by simp
  have 2: "rmatch [Lit (CHR 0x60 # '')}`);'')] (CHR 0x60 # ('')}`);'' @ post)) = Some ([], post)"
    by simp
  show ?thesis
    unfolding 1 using assms 2 by (simp add: rmatch_Group_then_Lit del: rmatch.simps)
qed

section \<open>fix\_all\_syntax.py on one line\<close>

lemma no_wrap_open_generic_fix:
  assumes "\<not> contains ''${JSON.stringify('' line"
  shows "generic_fix line = line"
proof -
  have a: "re_sub wrapped_literal (\<lambda>m gs. group gs 1) line = line"
    unfolding wrapped_literal_def
    using re_sub_absent [of "''${JSON.stringify(''" line "''`''"] assms by simp
  have b: "re_sub wrapped_expr (\<lambda>m gs. group gs 1) line = line"
    unfolding wrapped_expr_def
    using re_sub_absent [of "''${JSON.stringify(''" line "[]"] assms by simp
  show ?thesis by (simp only: generic_fix_def a b)
qed

lemma contains_between_chars:
  assumes "c \<notin> set p"
  shows "contains p (a @ c # (body @ c # b)) \<longleftrightarrow> contains p a \<or> contains p body \<or> contains p b"
  by (simp only: contains_char_split [OF assms])

lemma flat_log_no_wrap_open:
  assumes "\<not> contains ''${JSON.stringify('' body"
  shows "\<not> contains ''${JSON.stringify('' (''      '' @ flat_log body)"
proof -
  have eq: "''      '' @ flat_log body = ''      console.log('' @ CHR 0x60 # (body @ CHR 0x60 # '');'')"
    by (simp add: flat_log_def)
  have c: "CHR 0x60 \<notin> set ''${JSON.stringify(''" by simp
  have a: "\<not> contains ''${JSON.stringify('' ''      console.log(''" by simp
  have b: "\<not> contains ''${JSON.stringify('' '');''" by simp
  show ?thesis
    unfolding eq contains_between_chars [OF c] using assms a b by blast
qed

lemma no_opening_no_match:
  assumes "a \<notin> set as" and "\<not> contains (a # as) pre"
  shows "\<forall>i<length pre. rmatch (Lit (a # as) # its) (drop i (pre @ (a # as) @ rest)) = None"
proof (intro allI impI)
  fix i assume i: "i < length pre"
  then have ne: "drop i pre \<noteq> []" by simp
  have "\<not> contains (a # as) (drop i pre)" using assms(2) contains_drop by blast
  then have "\<not> prefix (a # as) (drop i pre @ (a # as) @ rest)"
    using no_prefix_across [OF assms(1) _ ne] by blast
  moreover have "drop i (pre @ (a # as) @ rest) = drop i pre @ (a # as) @ rest" using i by simp
  ultimately show "rmatch (Lit (a # as) # its) (drop i (pre @ (a # as) @ rest)) = None" by simp
qed

lemma no_opening_no_double_match:
  assumes "\<not> contains ''console.log(`${JSON.stringify(`'' pre"
  shows "\<forall>i<length pre. rmatch double_pattern (drop i (pre @ double_wrapped L E @ post)) = None"
proof -
  have a: "CHR ''c'' \<notin> set ''onsole.log(`${JSON.stringify(`''" by simp
  have p: "\<not> contains (CHR ''c'' # ''onsole.log(`${JSON.stringify(`'') pre" using assms by simp
  have "pre @ double_wrapped L E @ post
        = pre @ (CHR ''c'' # ''onsole.log(`${JSON.stringify(`'')
            @ (L @ ''`)} ${JSON.stringify('' @ E @ '')}`);'' @ post)"
    by (simp add: double_wrapped_def)
  then show ?thesis
    using no_opening_no_match [OF a p, of
        "[Group (CHR 0x60), Lit ''`)} ${JSON.stringify('', Group (CHR '')''), Lit '')}`);'']"
        "L @ ''`)} ${JSON.stringify('' @ E @ '')}`);'' @ post"]
    by (simp only: double_pattern_def)
qed

lemma no_opening_no_single_match:
  assumes "\<not> contains ''console.log(`${JSON.stringify(`'' pre"
  shows "\<forall>i<length pre. rmatch single_pattern (drop i (pre @ single_wrapped T @ post)) = None"
proof -
  have a: "CHR ''c'' \<notin> set ''onsole.log(`${JSON.stringify(`''" by simp
  have p: "\<not> contains (CHR ''c'' # ''onsole.log(`${JSON.stringify(`'') pre" using assms by simp
  have "pre @ single_wrapped T @ post
        = pre @ (CHR ''c'' # ''onsole.log(`${JSON.stringify(`'') @ (T @ ''`)}`);'' @ post)"
    by (simp add: single_wrapped_def)
  then show ?thesis
    using no_opening_no_match [OF a p, of "[Group (CHR 0x60), Lit ''`)}`);'']" "T @ ''`)}`);'' @ post"]
    by (simp only: single_pattern_def)
qed

lemma specific_fix_double:
  assumes "\<forall>i<length pre. rmatch double_pattern (drop i (pre @ double_wrapped L E @ post)) = None"
    and "L \<noteq> []" "CHR 0x60 \<notin> set L" "E \<noteq> []" "CHR '')'' \<notin> set E"
  shows "specific_fix (pre @ double_wrapped L E @ post)
         = ''      '' @ flat_log (L @ '' '' @ filter (\<lambda>x. x \<noteq> CHR 0x60) E)"
proof -
  let ?line = "pre @ double_wrapped L E @ post"
  obtain cs where dw: "double_wrapped L E @ post = CHR ''c'' # cs"
    by (simp add: double_wrapped_def)
  have c1: "contains ''console.log(`${JSON.stringify('' ?line"
  proof -
    have "?line = pre @ ''console.log(`${JSON.stringify('' @
            (''`'' @ L @ ''`)} ${JSON.stringify('' @ E @ '')}`);'' @ post)"
      by (simp add: double_wrapped_def)
    then show ?thesis using contains_mid by metis
  qed
  have c2: "contains '')} ${JSON.stringify('' ?line"
  proof -
    have "?line = (pre @ ''console.log(`${JSON.stringify(`'' @ L @ ''`'') @ '')} ${JSON.stringify('' @
            (E @ '')}`);'' @ post)"
      by (simp add: double_wrapped_def)
    then show ?thesis using contains_mid by metis
  qed
  have "rmatch double_pattern (CHR ''c'' # cs) = Some ([L, E], post)"
    using rmatch_double [OF assms(2-5), of post] dw by simp
  then have "re_search double_pattern (CHR ''c'' # cs) = Some [L, E]"
    by (rule re_search_found)
  moreover have "re_search double_pattern (pre @ CHR ''c'' # cs) = re_search double_pattern (CHR ''c'' # cs)"
    using assms(1) unfolding dw by (rule re_search_skip_unmatched)
  ultimately have s: "re_search double_pattern ?line = Some [L, E]" using dw by simp
  have "\<not> contains ''`)}'' E" using contains_set [of "''`)}''" E] assms(5) by auto
  then have "replace ''`)}'' [] E = E" by (simp add: replace_absent)
  then have t2: "replace ''`'' [] (replace ''`)}'' [] E) = filter (\<lambda>x. x \<noteq> CHR 0x60) E"
    by (simp add: replace_char_filter)
  show ?thesis
    unfolding specific_fix_def using c1 c2 s t2
    by (simp add: group_def flat_log_def del: contains.simps)
qed

lemma specific_fix_single:
  assumes "\<forall>i<length pre. rmatch single_pattern (drop i (pre @ single_wrapped T @ post)) = None"
    and "T \<noteq> []" "CHR 0x60 \<notin> set T"
    and "\<not> contains '')} ${JSON.stringify('' (pre @ single_wrapped T @ post)"
  shows "specific_fix (pre @ single_wrapped T @ post) = ''      '' @ flat_log T"
proof -
  let ?line = "pre @ single_wrapped T @ post"
  obtain cs where dw: "single_wrapped T @ post = CHR ''c'' # cs"
    by (simp add: single_wrapped_def)
  have c1: "contains ''console.log(`${JSON.stringify('' ?line"
  proof -
    have "?line = pre @ ''console.log(`${JSON.stringify('' @ (''`'' @ T @ ''`)}`);'' @ post)"
      by (simp add: single_wrapped_def)
    then show ?thesis using contains_mid by metis
  qed
  have "rmatch single_pattern (CHR ''c'' # cs) = Some ([T], post)"
    using rmatch_single [OF assms(2,3), of post] dw by simp
  then have "re_search single_pattern (CHR ''c'' # cs) = Some [T]"
    by (rule re_search_found)
  moreover have "re_search single_pattern (pre @ CHR ''c'' # cs) = re_search single_pattern (CHR ''c'' # cs)"
    using assms(1) unfolding dw by (rule re_search_skip_unmatched)
  ultimately have s: "re_search single_pattern ?line = Some [T]" using dw by simp
  show ?thesis
    unfolding specific_fix_def using c1 assms(4) s
    by (simp add: group_def flat_log_def del: contains.simps)
qed

lemma double_wrapped_line_repaired:
  assumes "\<forall>i<length pre. rmatch double_pattern (drop i (pre @ double_wrapped L E @ post)) = None"
    and "L \<noteq> []" and "CHR 0x60 \<notin> set L" and "\<not> contains ''${JSON.stringify('' L"
    and "E \<noteq> []" and "CHR ''('' \<notin> set E" and "CHR '')'' \<notin> set E"
  shows "fix_line (pre @ double_wrapped L E @ post)
         = ''      '' @ flat_log (L @ '' '' @ filter (\<lambda>x. x \<noteq> CHR 0x60) E)"
proof -
  let ?E = "filter (\<lambda>x. x \<noteq> CHR 0x60) E"
  let ?line = "pre @ double_wrapped L E @ post"
  have e: "\<not> contains ''${JSON.stringify('' ?E"
    using contains_set [of "''${JSON.stringify(''" ?E] assms(6) by auto
  have sp: "CHR '' '' \<notin> set ''${JSON.stringify(''" by simp
  have eq: "L @ '' '' @ ?E = L @ CHR '' '' # ?E" by simp
  have body: "\<not> contains ''${JSON.stringify('' (L @ '' '' @ ?E)"
    unfolding eq contains_char_split [OF sp] using assms(4) e by blast
  have nw: "\<not> contains ''${JSON.stringify('' (''      '' @ flat_log (L @ '' '' @ ?E))"
    using body by (rule flat_log_no_wrap_open)
  have "fix_line ?line = generic_fix (specific_fix ?line)" by (simp only: fix_line_def)
  also have "\<dots> = generic_fix (''      '' @ flat_log (L @ '' '' @ ?E))"
    by (simp only: specific_fix_double [OF assms(1,2,3,5,7)])
  also have "\<dots> = ''      '' @ flat_log (L @ '' '' @ ?E)"
    using nw by (rule no_wrap_open_generic_fix)
  finally show ?thesis .
qed

lemma single_wrapped_line_repaired:
  assumes "\<forall>i<length pre. rmatch single_pattern (drop i (pre @ single_wrapped T @ post)) = None"
    and "T \<noteq> []" and "CHR 0x60 \<notin> set T" and "\<not> contains ''${JSON.stringify('' T"
    and "\<not> contains '')} ${JSON.stringify('' (pre @ single_wrapped T @ post)"
  shows "fix_line (pre @ single_wrapped T @ post) = ''      '' @ flat_log T"
proof -
  let ?line = "pre @ single_wrapped T @ post"
  have nw: "\<not> contains ''${JSON.stringify('' (''      '' @ flat_log T)"
    using assms(4) by (rule flat_log_no_wrap_open)
  have "fix_line ?line = generic_fix (specific_fix ?line)" by (simp only: fix_line_def)
  also have "\<dots> = generic_fix (''      '' @ flat_log T)"
    by (simp only: specific_fix_single [OF assms(1,2,3,5)])
  also have "\<dots> = ''      '' @ flat_log T"
    using nw by (rule no_wrap_open_generic_fix)
  finally show ?thesis .
qed

section \<open>Lines and line feeds\<close>

lemma split_lines_not_Nil: "split_lines s \<noteq> []"
  by (induction s) (auto split: list.splits)

lemma split_lines_no_nl: "l \<in> set (split_lines s) \<Longrightarrow> nl \<notin> set l"
proof (induction s arbitrary: l)
  case Nil
  then show ?case by simp
next
  case (Cons c cs)
  then show ?case by (auto split: if_splits list.splits)
qed

lemma split_lines_plain: "nl \<notin> set x \<Longrightarrow> split_lines x = [x]"
  by (induction x) auto

lemma split_lines_append_nl:
  "nl \<notin> set x \<Longrightarrow> split_lines (x @ nl # rest) = x # split_lines rest"
  by (induction x) auto

lemma split_lines_join:
  "ls \<noteq> [] \<Longrightarrow> \<forall>l \<in> set ls. nl \<notin> set l \<Longrightarrow> split_lines (join [nl] ls) = ls"
proof (induction "[nl]" ls rule: join.induct)
  case 1
  then show ?case by simp
next
  case (2 x)
  then show ?case by (simp add: split_lines_plain)
next
  case (3 x y ys)
  then show ?case by (simp add: split_lines_append_nl)
qed

lemma replace_set: "set (replace old new s) \<subseteq> set s \<union> set new"
proof (induction old new s rule: replace.induct)
  case (1 new s)
  show ?case by (induction s) auto
next
  case (2 a as new)
  show ?case by simp
next
  case (3 a as new c cs)
  show ?case
  proof (cases "prefix (a # as) (c # cs)")
    case True
    have "set (drop (length (a # as)) (c # cs)) \<subseteq> set (c # cs)" by (rule set_drop_subset)
    with 3(1) [OF True] True show ?thesis by (simp only: replace.simps if_True) auto
  next
    case False
    with 3(2) [OF False] show ?thesis by (simp only: replace.simps if_False) auto
  qed
qed

lemma group_set: "x \<in> set (group gs k) \<Longrightarrow> \<exists>g \<in> set gs. x \<in> set g"
  by (auto simp: group_def split: if_splits)

lemma re_search_set:
  assumes "re_search p s = Some gs" and "g \<in> set gs"
  shows "set g \<subseteq> set s"
proof -
  from re_search_SomeD [OF assms(1)] obtain pre s' r
    where s: "s = pre @ s'" and m: "rmatch p s' = Some (gs, r)" by blast
  from rmatch_sound [OF m] assms(2) have "set g \<subseteq> set s'" by blast
  then show ?thesis using s by auto
qed

lemma re_sub_keeps_out:
  assumes repl: "\<And>m gs. \<forall>g \<in> set gs. c \<notin> set g \<Longrightarrow> c \<notin> set (repl m gs)"
  shows "c \<notin> set s \<Longrightarrow> c \<notin> set (re_sub p repl s)"
proof (induction s rule: length_induct)
  case (1 s)
  show ?case
  proof (cases s)
    case Nil
    show ?thesis
    proof (cases "rmatch p []")
      case None
      then show ?thesis using Nil by simp
    next
      case (Some a)
      obtain gs r where a: "a = (gs, r)" by (cases a)
      from rmatch_sound [OF Some [unfolded a]] have "\<forall>g \<in> set gs. c \<notin> set g" by auto
      then have "c \<notin> set (repl [] gs)" by (rule repl)
      then show ?thesis using Some a Nil by (simp del: rmatch.simps)
    qed
  next
    case (Cons x xs)
    show ?thesis
    proof (cases "rmatch p (x # xs)")
      case None
      have "c \<notin> set (re_sub p repl xs)" using "1.IH" "1.prems" Cons by simp
      then show ?thesis using None Cons "1.prems" by (simp del: rmatch.simps)
    next
      case (Some a)
      obtain gs r where a: "a = (gs, r)" by (cases a)
      from rmatch_sound [OF Some [unfolded a]]
      obtain m where gsub: "\<forall>g \<in> set gs. set g \<subseteq> set (x # xs)" and xr: "x # xs = m @ r"
        by blast
      have "set r \<subseteq> set (x # xs)" unfolding xr by auto
      then have r: "c \<notin> set r" using "1.prems" Cons by auto
      have gs: "\<forall>g \<in> set gs. c \<notin> set g" using gsub "1.prems" Cons by auto
      have out: "c \<notin> set (repl m gs)" for m using gs by (rule repl)
      show ?thesis
      proof (cases "length r < length (x # xs)")
        case True
        then have "c \<notin> set (re_sub p repl r)" using "1.IH" r Cons by simp
        then show ?thesis using Some a True out Cons by (simp del: rmatch.simps)
      next
        case False
        have "c \<notin> set (re_sub p repl xs)" using "1.IH" "1.prems" Cons by simp
        then show ?thesis using Some a False out Cons "1.prems" by (simp del: rmatch.simps)
      qed
    qed
  qed
qed

lemma specific_fix_no_nl:
  assumes "nl \<notin> set line"
  shows "nl \<notin> set (specific_fix line)"
proof -
  have g: "nl \<notin> set (group gs k)" if "re_search p line = Some gs" for p gs k
    using group_set [of nl gs k] re_search_set [OF that] assms by blast
  have r: "nl \<notin> set (replace ''`'' [] (replace ''`)}'' [] x))" if "nl \<notin> set x" for x
    using replace_set [of "''`''" "[]" "replace ''`)}'' [] x"] replace_set [of "''`)}''" "[]" x] that
    by auto
  show ?thesis
    unfolding specific_fix_def using assms g r
    by (auto simp: nl_def Let_def split: option.splits simp del: contains.simps)
qed

lemma generic_fix_no_nl:
  assumes "nl \<notin> set line"
  shows "nl \<notin> set (generic_fix line)"
  unfolding generic_fix_def
  by (intro re_sub_keeps_out assms) (use group_set in blast)+

lemma fix_line_no_nl: "nl \<notin> set line \<Longrightarrow> nl \<notin> set (fix_line line)"
  by (simp add: fix_line_def specific_fix_no_nl generic_fix_no_nl)

lemma fix_all_syntax_lines:
  "split_lines (fix_all_syntax content) = map fix_line (split_lines content)"
  unfolding fix_all_syntax_def
proof (rule split_lines_join)
  show "map fix_line (split_lines content) \<noteq> []" by (simp add: split_lines_not_Nil)
  show "\<forall>l \<in> set (map fix_line (split_lines content)). nl \<notin> set l"
    using split_lines_no_nl fix_line_no_nl by fastforce
qed

section \<open>The lines fix\_empty\_logs.py writes\<close>

lemma readlines_terminated:
  "nl \<notin> set b \<Longrightarrow> readlines (b @ nl # rest) = (b @ [nl]) # readlines rest"
  by (induction b) auto

lemma readlines_unterminated:
  "l \<noteq> [] \<Longrightarrow> nl \<notin> set l \<Longrightarrow> readlines l = [l]"
proof (induction l)
  case Nil
  then show ?case by simp
next
  case (Cons x l)
  then show ?case by (cases l) auto
qed

lemma concat_readlines: "concat (readlines s) = s"
  by (induction s) (auto split: list.splits)

lemma lines_ok_readlines: "lines_ok (readlines s)"
proof (induction s)
  case Nil
  show ?case by simp
next
  case (Cons c cs)
  show ?case
  proof (cases "c = nl")
    case True
    have t: "terminated [nl]" by (simp add: terminated_def)
    show ?thesis
    proof (cases "readlines cs")
      case Nil
      then show ?thesis using True t by simp
    next
      case (Cons l ls)
      then show ?thesis using True t Cons.IH by simp
    qed
  next
    case False
    show ?thesis
    proof (cases "readlines cs")
      case Nil
      then show ?thesis using False by (simp add: unterminated_def)
    next
      case rl: (Cons l ls)
      have up: "terminated l \<Longrightarrow> terminated (c # l)"
        using False by (auto simp: terminated_def intro: exI [of _ "c # _"])
      have un: "unterminated l \<Longrightarrow> unterminated (c # l)"
        using False by (auto simp: unterminated_def)
      show ?thesis using rl False Cons.IH up un by (cases ls) auto
    qed
  qed
qed

lemma readlines_concat: "lines_ok ls \<Longrightarrow> readlines (concat ls) = ls"
proof (induction ls rule: lines_ok.induct)
  case 1
  show ?case by simp
next
  case (2 l)
  then show ?case
    by (auto simp: terminated_def unterminated_def readlines_terminated readlines_unterminated)
next
  case (3 l l' ls)
  then obtain b where "l = b @ [nl]" "nl \<notin> set b" by (auto simp: terminated_def)
  then show ?case using 3 readlines_terminated [of b "concat (l' # ls)"] by simp
qed

lemma lines_ok_pointwise:
  "lines_ok ls \<Longrightarrow> length ls' = length ls \<Longrightarrow>
   (\<forall>i < length ls. (terminated (ls ! i) \<longrightarrow> terminated (ls' ! i))
                     \<and> (unterminated (ls ! i) \<longrightarrow> unterminated (ls' ! i))) \<Longrightarrow>
   lines_ok ls'"
proof (induction ls arbitrary: ls' rule: lines_ok.induct)
  case 1
  then show ?case by simp
next
  case (2 l)
  then obtain x where "ls' = [x]" by (cases ls') auto
  then show ?case using 2 by auto
next
  case (3 l l' ls)
  then obtain x xs where ls': "ls' = x # xs" by (cases ls') auto
  then obtain y ys where xs: "xs = y # ys" using 3(3) by (cases xs) auto
  have "terminated x" using 3(2,4) ls' by auto
  moreover have "lines_ok xs"
  proof (rule 3(1))
    show "lines_ok (l' # ls)" using 3(2) by simp
    show "length xs = length (l' # ls)" using 3(3) ls' by simp
    show "\<forall>i<length (l' # ls). (terminated ((l' # ls) ! i) \<longrightarrow> terminated (xs ! i))
          \<and> (unterminated ((l' # ls) ! i) \<longrightarrow> unterminated (xs ! i))"
    proof (intro allI impI)
      fix i assume "i < length (l' # ls)"
      then have "Suc i < length (l # l' # ls)" by simp
      from 3(4) [rule_format, OF this] show "(terminated ((l' # ls) ! i) \<longrightarrow> terminated (xs ! i))
          \<and> (unterminated ((l' # ls) ! i) \<longrightarrow> unterminated (xs ! i))"
        using ls' by simp
    qed
  qed
  ultimately show ?case using ls' xs by simp
qed

lemma replace_snoc:
  assumes "old \<noteq> []" and "c \<notin> set old"
  shows "replace old new (b @ [c]) = replace old new b @ [c]"
proof (induction b rule: length_induct)
  case (1 b)
  show ?case
  proof (cases b)
    case Nil
    have "\<not> prefix old [c]" using assms by (cases old) auto
    then show ?thesis using Nil assms by (simp add: replace_Cons_no_prefix replace_Nil)
  next
    case (Cons x xs)
    show ?thesis
    proof (cases "prefix old b")
      case True
      then obtain rest where b: "b = old @ rest" by (auto simp: prefix_def)
      then have "length rest < length b" using assms(1) by simp
      then have "replace old new (rest @ [c]) = replace old new rest @ [c]" using "1.IH" by blast
      then show ?thesis using b assms(1) replace_prefix [of old new "rest @ [c]"]
        by (simp add: replace_prefix)
    next
      case False
      then have "\<not> prefix old (b @ c # [])" using prefix_before_char [OF assms(2)] by blast
      then have "replace old new (b @ [c]) = x # replace old new (xs @ [c])"
        using Cons assms(1) replace_Cons_no_prefix [of old x "xs @ [c]" new] by simp
      moreover have "replace old new b = x # replace old new xs"
        using False Cons assms(1) by (simp add: replace_Cons_no_prefix)
      moreover have "replace old new (xs @ [c]) = replace old new xs @ [c]"
        using "1.IH" Cons by simp
      ultimately show ?thesis by simp
    qed
  qed
qed

lemma replace_not_Nil:
  assumes "old \<noteq> []" and "new \<noteq> []" and "s \<noteq> []"
  shows "replace old new s \<noteq> []"
proof -
  obtain c cs where s: "s = c # cs" using assms(3) by (cases s) auto
  show ?thesis
  proof (cases "prefix old s")
    case True
    then obtain rest where "s = old @ rest" by (auto simp: prefix_def)
    then show ?thesis using assms by (simp add: replace_prefix)
  next
    case False
    then show ?thesis using s assms(1) by (simp add: replace_Cons_no_prefix)
  qed
qed

lemma message_for_facts:
  "message_for prev \<noteq> []" "nl \<notin> set (message_for prev)"
  using message_for_cases [of prev]
  by (auto simp: msg_success_def msg_error_def msg_processing_def nl_def)

lemma empty_call_facts: "empty_call \<noteq> []" "nl \<notin> set empty_call"
  by (simp_all add: empty_call_def nl_def)

lemma new_line_terminated: "terminated l \<Longrightarrow> terminated (new_line prev l)"
proof -
  assume "terminated l"
  then obtain b where l: "l = b @ [nl]" and b: "nl \<notin> set b" by (auto simp: terminated_def)
  have "replace empty_call (message_for prev) l = replace empty_call (message_for prev) b @ [nl]"
    unfolding l using empty_call_facts by (rule replace_snoc)
  moreover have "nl \<notin> set (replace empty_call (message_for prev) b)"
    using replace_set [of empty_call "message_for prev" b] b message_for_facts(2) by blast
  ultimately have "terminated (replace empty_call (message_for prev) l)"
    by (auto simp: terminated_def)
  then show ?thesis using \<open>terminated l\<close> by (simp add: new_line_message)
qed

lemma new_line_unterminated: "unterminated l \<Longrightarrow> unterminated (new_line prev l)"
proof -
  assume u: "unterminated l"
  have "replace empty_call (message_for prev) l \<noteq> []"
    using u by (intro replace_not_Nil empty_call_facts message_for_facts) (simp add: unterminated_def)
  moreover have "nl \<notin> set (replace empty_call (message_for prev) l)"
    using replace_set [of empty_call "message_for prev" l] u message_for_facts(2)
    by (auto simp: unterminated_def)
  ultimately show ?thesis using u by (simp add: new_line_message unterminated_def)
qed

lemma lines_ok_fix: "lines_ok lines \<Longrightarrow> lines_ok (fix_empty_logs_lines lines)"
proof (rule lines_ok_pointwise)
  show "length (fix_empty_logs_lines lines) = length lines" by (rule fix_empty_logs_lines_length)
  show "\<forall>i<length lines.
       (terminated (lines ! i) \<longrightarrow> terminated (fix_empty_logs_lines lines ! i)) \<and>
       (unterminated (lines ! i) \<longrightarrow> unterminated (fix_empty_logs_lines lines ! i))"
    using fix_empty_logs_lines_nth new_line_terminated new_line_unterminated by simp
qed

lemma readlines_fix_empty_logs:
  "readlines (fix_empty_logs content) = fix_empty_logs_lines (readlines content)"
  unfolding fix_empty_logs_def
  by (intro readlines_concat lines_ok_fix lines_ok_readlines)

section \<open>Properties of the scripts on whole contents\<close>

lemma replace_removes_all:
  assumes skip: "\<And>rest. contains old (new @ rest) \<Longrightarrow> contains old rest"
    and old: "old \<noteq> []" and new: "new \<noteq> []" and hd: "hd new \<notin> set (tl old)"
  shows "\<not> contains old (replace old new s)"
proof (induction s rule: length_induct)
  case (1 s)
  show ?case
  proof (cases s)
    case Nil
    then show ?thesis using old by (simp add: replace_Nil)
  next
    case (Cons c cs)
    show ?thesis
    proof (cases "prefix old s")
      case True
      then obtain rest where s: "s = old @ rest" by (auto simp: prefix_def)
      have "length rest < length s" using s old by simp
      then have "\<not> contains old (replace old new rest)" using "1.IH" by blast
      then have "\<not> contains old (new @ replace old new rest)" using skip by blast
      then show ?thesis using s old by (simp add: replace_prefix)
    next
      case False
      then have r: "replace old new s = c # replace old new cs"
        using Cons old by (simp add: replace_Cons_no_prefix)
      have ih: "\<not> contains old (replace old new cs)" using "1.IH" Cons by simp
      have "\<not> prefix old (c # replace old new cs)"
      proof
        assume p: "prefix old (c # replace old new cs)"
        obtain a as where o: "old = a # as" using old by (cases old) auto
        from p o have ac: "a = c" and "prefix as (map (\<lambda>x. x) (replace old new cs))" by auto
        then have "prefix as (map (\<lambda>x. x) cs)"
          using prefix_back [OF old new, of "\<lambda>x. x" as cs] hd o by simp
        then have "prefix old (c # cs)" using o ac by simp
        with False Cons show False by simp
      qed
      then show ?thesis using r ih by simp
    qed
  qed
qed

lemma no_empty_call_left:
  "\<not> contains empty_call (replace empty_call (message_for prev) s)"
proof (rule replace_removes_all)
  show "contains empty_call (message_for prev @ rest) \<Longrightarrow> contains empty_call rest" for rest
    using message_for_cases [of prev]
    by (auto simp: empty_call_def msg_success_def msg_error_def msg_processing_def)
  show "empty_call \<noteq> []" by (simp add: empty_call_def)
  show "message_for prev \<noteq> []" by (rule message_for_facts)
  show "hd (message_for prev) \<notin> set (tl empty_call)"
    using message_for_cases [of prev]
    by (auto simp: empty_call_def msg_success_def msg_error_def msg_processing_def)
qed

lemma new_line_no_empty_call: "\<not> contains empty_call (new_line prev line)"
  using no_empty_call_left by (simp add: new_line_message)

lemma fix_empty_logs_lines_idem:
  "fix_empty_logs_lines (fix_empty_logs_lines lines) = fix_empty_logs_lines lines"
proof (rule nth_equalityI)
  show "length (fix_empty_logs_lines (fix_empty_logs_lines lines)) = length (fix_empty_logs_lines lines)"
    by (simp add: fix_empty_logs_lines_length)
next
  fix i assume "i < length (fix_empty_logs_lines (fix_empty_logs_lines lines))"
  then have i: "i < length lines" by (simp add: fix_empty_logs_lines_length)
  then have i': "i < length (fix_empty_logs_lines lines)" by (simp add: fix_empty_logs_lines_length)
  have "\<not> contains empty_call (fix_empty_logs_lines lines ! i)"
    using fix_empty_logs_lines_nth [OF i] new_line_no_empty_call by simp
  then show "fix_empty_logs_lines (fix_empty_logs_lines lines) ! i = fix_empty_logs_lines lines ! i"
    using fix_empty_logs_lines_nth [OF i'] by (simp add: new_line_message)
qed

subsection \<open>Running a script twice\<close>

text \<open>
  Claim C6 says that each of the three transforms is idempotent. Two of them are not.
  \<^verbatim>\<open>fix_all_syntax.py\<close> unwraps one level of a nested wrapper per run, and
  \<^verbatim>\<open>fix_json_stringify.py\<close>, whose second substitution copies group 1 as it is, can
  write a statement that its first substitution rewrites on the next run.
\<close>

theorem repairs_not_idempotent:
  "fix_all_syntax (fix_all_syntax ''${JSON.stringify(${JSON.stringify(x)})}'')
     \<noteq> fix_all_syntax ''${JSON.stringify(${JSON.stringify(x)})}''
   \<and> fix_json_stringify (fix_json_stringify
         ''console.log(`${JSON.stringify(`${JSON.stringify(x)}`)} ${JSON.stringify(E)`)}`);'')
     \<noteq> fix_json_stringify
         ''console.log(`${JSON.stringify(`${JSON.stringify(x)}`)} ${JSON.stringify(E)`)}`);''"
  by code_simp

text \<open>
  Claim C6, amended: the transform of \<^verbatim>\<open>fix_empty_logs.py\<close> is idempotent. After
  one run no line contains the empty logging call, and the lines of the text written are
  the lines the loop produced, so a second run changes nothing.
\<close>

theorem fix_empty_logs_idempotent:
  "fix_empty_logs (fix_empty_logs content) = fix_empty_logs content"
proof -
  have "fix_empty_logs (fix_empty_logs content)
        = concat (fix_empty_logs_lines (readlines (fix_empty_logs content)))"
    by (simp only: fix_empty_logs_def)
  also have "\<dots> = concat (fix_empty_logs_lines (fix_empty_logs_lines (readlines content)))"
    by (simp only: readlines_fix_empty_logs)
  also have "\<dots> = concat (fix_empty_logs_lines (readlines content))"
    by (simp only: fix_empty_logs_lines_idem)
  also have "\<dots> = fix_empty_logs content" by (simp only: fix_empty_logs_def)
  finally show ?thesis .
qed

lemma num_lines_count: "length (split_lines s) = Suc (count_list s nl)"
  by (induction s) (auto split: list.splits simp: split_lines_not_Nil)

lemma replace_count:
  assumes "old \<noteq> []" and "c \<notin> set old" and "c \<notin> set new"
  shows "count_list (replace old new s) c = count_list s c"
proof (induction s rule: length_induct)
  case (1 s)
  show ?case
  proof (cases s)
    case Nil
    then show ?thesis using assms(1) by (simp add: replace_Nil)
  next
    case (Cons x xs)
    show ?thesis
    proof (cases "prefix old s")
      case True
      then obtain rest where s: "s = old @ rest" by (auto simp: prefix_def)
      have "length rest < length s" using s assms(1) by simp
      then have "count_list (replace old new rest) c = count_list rest c" using "1.IH" by blast
      then show ?thesis using s assms by (simp add: replace_prefix)
    next
      case False
      then have "replace old new s = x # replace old new xs"
        using Cons assms(1) by (simp add: replace_Cons_no_prefix)
      then show ?thesis using "1.IH" Cons by simp
    qed
  qed
qed

lemma new_line_count: "count_list (new_line prev line) nl = count_list line nl"
  using replace_count [OF empty_call_facts message_for_facts(2), of prev line]
  by (simp add: new_line_message)

lemma count_list_concat: "count_list (concat ls) c = sum_list (map (\<lambda>l. count_list l c) ls)"
  by (induction ls) auto

lemma fix_empty_logs_count: "count_list (fix_empty_logs content) nl = count_list content nl"
proof -
  let ?ls = "readlines content"
  have "map (\<lambda>l. count_list l nl) (fix_empty_logs_lines ?ls) = map (\<lambda>l. count_list l nl) ?ls"
    by (rule nth_equalityI)
      (simp_all add: fix_empty_logs_lines_length fix_empty_logs_lines_nth new_line_count)
  then have "count_list (concat (fix_empty_logs_lines ?ls)) nl = count_list (concat ?ls) nl"
    by (simp only: count_list_concat)
  then show ?thesis by (simp add: fix_empty_logs_def concat_readlines)
qed

subsection \<open>The number of lines\<close>

text \<open>
  Claim C8, amended to the two scripts that work line by line: the output of
  \<^verbatim>\<open>fix_all_syntax.py\<close> and the output of \<^verbatim>\<open>fix_empty_logs.py\<close> have exactly
  as many lines as the input.
\<close>

theorem line_count_preserved:
  "num_lines (fix_all_syntax content) = num_lines content
   \<and> num_lines (fix_empty_logs content) = num_lines content"
  by (simp add: num_lines_def fix_all_syntax_lines num_lines_count [of "fix_empty_logs content"]
      num_lines_count [of content] fix_empty_logs_count)

text \<open>
  Claim C8 says the same of \<^verbatim>\<open>fix_json_stringify.py\<close>. The third substitution of
  \<^verbatim>\<open>fix_console_log\<close> drops what its run \<^verbatim>\<open>[^`]*\<close> matched, and that can be a
  line feed: the two lines below become one.
\<close>

theorem fix_json_stringify_drops_a_line:
  "num_lines (''console.log(`${JSON.stringify(a`)}))}}'' @ [nl] @ ''`);'') = 2
   \<and> fix_json_stringify (''console.log(`${JSON.stringify(a`)}))}}'' @ [nl] @ ''`);'')
       = ''console.log(`a`);''
   \<and> num_lines (fix_json_stringify (''console.log(`${JSON.stringify(a`)}))}}'' @ [nl] @ ''`);'')) = 1"
  by code_simp

lemma fix_line_untouched:
  assumes "\<not> contains ''${JSON.stringify('' line"
  shows "fix_line line = line"
proof -
  have "\<not> contains (''console.log(`'' @ ''${JSON.stringify('') line"
    using assms contains_part2 by blast
  then have "\<not> contains ''console.log(`${JSON.stringify('' line" by simp
  then have "specific_fix line = line" by (simp only: specific_fix_def if_False)
  then have "fix_line line = generic_fix line" by (simp only: fix_line_def)
  also have "\<dots> = line" using assms by (rule no_wrap_open_generic_fix)
  finally show ?thesis .
qed

subsection \<open>Lines the scripts leave alone\<close>

text \<open>
  Claim C7, amended to the two scripts that work line by line. A line of the content
  without the wrapper opening \<^verbatim>\<open>${JSON.stringify(\<close> is the same line, character for
  character, in the output of \<^verbatim>\<open>fix_all_syntax.py\<close>; a line without the empty
  logging call \<^verbatim>\<open>console.log()\<close> is the same line in the output of
  \<^verbatim>\<open>fix_empty_logs.py\<close>. A line with neither is therefore unchanged by both.
\<close>

theorem unrecognized_lines_unchanged:
  "(i < length (split_lines content) \<and> \<not> contains ''${JSON.stringify('' (split_lines content ! i)
      \<longrightarrow> split_lines (fix_all_syntax content) ! i = split_lines content ! i)
   \<and> (j < length (readlines content) \<and> \<not> contains empty_call (readlines content ! j)
      \<longrightarrow> readlines (fix_empty_logs content) ! j = readlines content ! j)"
proof (intro conjI impI)
  assume "i < length (split_lines content) \<and> \<not> contains ''${JSON.stringify('' (split_lines content ! i)"
  then have i: "i < length (split_lines content)"
    and n: "\<not> contains ''${JSON.stringify('' (split_lines content ! i)" by blast+
  have "split_lines (fix_all_syntax content) ! i = fix_line (split_lines content ! i)"
    using i by (simp only: fix_all_syntax_lines nth_map)
  also have "\<dots> = split_lines content ! i" using n by (rule fix_line_untouched)
  finally show "split_lines (fix_all_syntax content) ! i = split_lines content ! i" .
next
  assume "j < length (readlines content) \<and> \<not> contains empty_call (readlines content ! j)"
  then show "readlines (fix_empty_logs content) ! j = readlines content ! j"
    using fix_empty_logs_lines_nth [of j "readlines content"]
    by (simp add: readlines_fix_empty_logs new_line_message)
qed

theorem unrecognized_lines_unchanged_witness:
  "(0::nat) < length (split_lines (''const a = 1;'' @ [nl] @ ''console.log();''))
   \<and> \<not> contains ''${JSON.stringify('' (split_lines (''const a = 1;'' @ [nl] @ ''console.log();'') ! 0)
   \<and> split_lines (fix_all_syntax (''const a = 1;'' @ [nl] @ ''console.log();'')) ! 0
       = split_lines (''const a = 1;'' @ [nl] @ ''console.log();'') ! 0
   \<and> (0::nat) < length (readlines (''const a = 1;'' @ [nl] @ ''console.log();''))
   \<and> \<not> contains empty_call (readlines (''const a = 1;'' @ [nl] @ ''console.log();'') ! 0)
   \<and> readlines (fix_empty_logs (''const a = 1;'' @ [nl] @ ''console.log();'')) ! 0
       = readlines (''const a = 1;'' @ [nl] @ ''console.log();'') ! 0"
proof -
  let ?c = "''const a = 1;'' @ [nl] @ ''console.log();''"
  have h: "0 < length (split_lines ?c)" "\<not> contains ''${JSON.stringify('' (split_lines ?c ! 0)"
    "0 < length (readlines ?c)" "\<not> contains empty_call (readlines ?c ! 0)"
    by code_simp+
  show ?thesis using unrecognized_lines_unchanged [of 0 ?c 0] h by blast
qed

text \<open>
  Claim C7 says this of each script. \<^verbatim>\<open>fix_json_stringify.py\<close> matches its pattern
  against the whole content, and a match can reach over several lines: below, the second
  line \<^verbatim>\<open>)}\<close> contains neither substring and lies inside the match that starts on
  the first line; the script empties it.
\<close>

theorem fix_json_stringify_changes_plain_line:
  "split_lines (''console.log(`${JSON.stringify(a)}'' @ [nl] @ '')}'' @ [nl] @ ''`);'') ! 1 = '')}''
   \<and> \<not> contains ''${JSON.stringify('' '')}'' \<and> \<not> contains ''console.log()'' '')}''
   \<and> split_lines (fix_json_stringify
          (''console.log(`${JSON.stringify(a)}'' @ [nl] @ '')}'' @ [nl] @ ''`);'')) ! 1 = []"
  by code_simp

lemma double_pattern_matchD:
  assumes "rmatch double_pattern s = Some (gs, r)"
  shows "\<exists>L E. gs = [L, E] \<and> s = double_wrapped L E @ r"
proof -
  from assms [unfolded double_pattern_def]
  obtain s1 where s: "s = ''console.log(`${JSON.stringify(`'' @ s1"
    and 1: "rmatch [Group (CHR 0x60), Lit ''`)} ${JSON.stringify('', Group (CHR '')''), Lit '')}`);''] s1
            = Some (gs, r)"
    by (rule rmatch_LitD)
  from 1 obtain L s2 gs1 where s1: "s1 = L @ s2" and gs: "gs = L # gs1"
    and 2: "rmatch [Lit ''`)} ${JSON.stringify('', Group (CHR '')''), Lit '')}`);''] s2 = Some (gs1, r)"
    by (rule rmatch_GroupD)
  from 2 obtain s3 where s2: "s2 = ''`)} ${JSON.stringify('' @ s3"
    and 3: "rmatch [Group (CHR '')''), Lit '')}`);''] s3 = Some (gs1, r)"
    by (rule rmatch_LitD)
  from 3 obtain E s4 gs2 where s3: "s3 = E @ s4" and gs1: "gs1 = E # gs2"
    and 4: "rmatch [Lit '')}`);''] s4 = Some (gs2, r)"
    by (rule rmatch_GroupD)
  from 4 obtain s5 where s4: "s4 = '')}`);'' @ s5" and 5: "rmatch [] s5 = Some (gs2, r)"
    by (rule rmatch_LitD)
  from 5 have "gs2 = []" "s5 = r" by simp_all
  then have "gs = [L, E]" and "s = double_wrapped L E @ r"
    using s s1 s2 s3 s4 gs gs1 by (simp_all add: double_wrapped_def)
  then show ?thesis by blast
qed

lemma single_pattern_matchD:
  assumes "rmatch single_pattern s = Some (gs, r)"
  shows "\<exists>T. gs = [T] \<and> s = single_wrapped T @ r"
proof -
  from assms [unfolded single_pattern_def]
  obtain s1 where s: "s = ''console.log(`${JSON.stringify(`'' @ s1"
    and 1: "rmatch [Group (CHR 0x60), Lit ''`)}`);''] s1 = Some (gs, r)"
    by (rule rmatch_LitD)
  from 1 obtain T s2 gs1 where s1: "s1 = T @ s2" and gs: "gs = T # gs1"
    and 2: "rmatch [Lit ''`)}`);''] s2 = Some (gs1, r)"
    by (rule rmatch_GroupD)
  from 2 obtain s3 where s2: "s2 = ''`)}`);'' @ s3" and 3: "rmatch [] s3 = Some (gs1, r)"
    by (rule rmatch_LitD)
  from 3 have "gs1 = []" "s3 = r" by simp_all
  then have "gs = [T]" and "s = single_wrapped T @ r"
    using s s1 s2 gs by (simp_all add: single_wrapped_def)
  then show ?thesis by blast
qed

subsection \<open>The rebuilt line replaces the whole line\<close>

text \<open>
  Claim C9. Whenever the doubly or the singly wrapped repair of \<^verbatim>\<open>fix_all_syntax.py\<close>
  fires on a line, the line is some text \<open>pre\<close>, the matched statement, and some text
  \<open>post\<close>, and the line assigned is exactly six spaces and the statement rebuilt from the
  groups: \<open>pre\<close>, with the indentation of the line, and \<open>post\<close> are gone. The line
  written to the output is that line after the two catch-all substitutions.
\<close>

theorem specific_repair_replaces_whole_line:
  "(double_fires line \<longrightarrow>
      (\<exists>pre L E post. line = pre @ double_wrapped L E @ post
         \<and> specific_fix line = ''      '' @ flat_log (L @ '' '' @ strip_artifacts E)
         \<and> fix_line line = generic_fix (''      '' @ flat_log (L @ '' '' @ strip_artifacts E))))
   \<and> (single_fires line \<longrightarrow>
      (\<exists>pre T post. line = pre @ single_wrapped T @ post
         \<and> specific_fix line = ''      '' @ flat_log T
         \<and> fix_line line = generic_fix (''      '' @ flat_log T)))"
proof (intro conjI impI)
  assume f: "double_fires line"
  then obtain gs where s: "re_search double_pattern line = Some gs"
    by (auto simp: double_fires_def)
  from re_search_SomeD [OF s] obtain pre s' r where l: "line = pre @ s'"
    and m: "rmatch double_pattern s' = Some (gs, r)" by blast
  from double_pattern_matchD [OF m] obtain L E where gs: "gs = [L, E]"
    and s': "s' = double_wrapped L E @ r" by blast
  have c: "contains ''console.log(`${JSON.stringify('' line" "contains '')} ${JSON.stringify('' line"
    using f by (simp_all add: double_fires_def)
  have sf: "specific_fix line = ''      '' @ flat_log (L @ '' '' @ strip_artifacts E)"
    unfolding specific_fix_def using c s gs
    by (simp add: group_def flat_log_def strip_artifacts_def del: contains.simps)
  then have "fix_line line = generic_fix (''      '' @ flat_log (L @ '' '' @ strip_artifacts E))"
    by (simp only: fix_line_def)
  then show "\<exists>pre L E post. line = pre @ double_wrapped L E @ post
         \<and> specific_fix line = ''      '' @ flat_log (L @ '' '' @ strip_artifacts E)
         \<and> fix_line line = generic_fix (''      '' @ flat_log (L @ '' '' @ strip_artifacts E))"
    using l s' sf by blast
next
  assume f: "single_fires line"
  then obtain gs where s: "re_search single_pattern line = Some gs"
    by (auto simp: single_fires_def)
  from re_search_SomeD [OF s] obtain pre s' r where l: "line = pre @ s'"
    and m: "rmatch single_pattern s' = Some (gs, r)" by blast
  from single_pattern_matchD [OF m] obtain T where gs: "gs = [T]"
    and s': "s' = single_wrapped T @ r" by blast
  have c: "contains ''console.log(`${JSON.stringify('' line" "\<not> contains '')} ${JSON.stringify('' line"
    using f by (simp_all add: single_fires_def)
  have sf: "specific_fix line = ''      '' @ flat_log T"
    unfolding specific_fix_def using c s gs
    by (simp add: group_def flat_log_def del: contains.simps)
  then have "fix_line line = generic_fix (''      '' @ flat_log T)"
    by (simp only: fix_line_def)
  then show "\<exists>pre T post. line = pre @ single_wrapped T @ post
         \<and> specific_fix line = ''      '' @ flat_log T
         \<and> fix_line line = generic_fix (''      '' @ flat_log T)"
    using l s' sf by blast
qed

theorem specific_repair_replaces_whole_line_witness:
  "double_fires ''  if (x) console.log(`${JSON.stringify(`a`)} ${JSON.stringify(b)}`); // done''
   \<and> (\<exists>pre L E post.
         ''  if (x) console.log(`${JSON.stringify(`a`)} ${JSON.stringify(b)}`); // done''
           = pre @ double_wrapped L E @ post
         \<and> fix_line ''  if (x) console.log(`${JSON.stringify(`a`)} ${JSON.stringify(b)}`); // done''
           = generic_fix (''      '' @ flat_log (L @ '' '' @ strip_artifacts E)))
   \<and> single_fires ''    console.log(`${JSON.stringify(`up`)}`); return;''
   \<and> (\<exists>pre T post.
         ''    console.log(`${JSON.stringify(`up`)}`); return;'' = pre @ single_wrapped T @ post
         \<and> fix_line ''    console.log(`${JSON.stringify(`up`)}`); return;''
           = generic_fix (''      '' @ flat_log T))
   \<and> fix_line ''  if (x) console.log(`${JSON.stringify(`a`)} ${JSON.stringify(b)}`); // done''
       = ''      console.log(`a b`);''
   \<and> fix_line ''    console.log(`${JSON.stringify(`up`)}`); return;'' = ''      console.log(`up`);''"
proof -
  let ?d = "''  if (x) console.log(`${JSON.stringify(`a`)} ${JSON.stringify(b)}`); // done''"
  let ?s = "''    console.log(`${JSON.stringify(`up`)}`); return;''"
  have f: "double_fires ?d" "single_fires ?s" by code_simp+
  have v: "fix_line ?d = ''      console.log(`a b`);''" "fix_line ?s = ''      console.log(`up`);''"
    by code_simp+
  have d: "\<exists>pre L E post. ?d = pre @ double_wrapped L E @ post
         \<and> fix_line ?d = generic_fix (''      '' @ flat_log (L @ '' '' @ strip_artifacts E))"
    using specific_repair_replaces_whole_line [of ?d] f(1) by blast
  have s: "\<exists>pre T post. ?s = pre @ single_wrapped T @ post
         \<and> fix_line ?s = generic_fix (''      '' @ flat_log T)"
    using specific_repair_replaces_whole_line [of ?s] f(2) by blast
  show ?thesis using f v d s by (intro conjI)
qed

subsection \<open>The doubly and the singly wrapped statement\<close>

text \<open>
  Claim C1 says that for every literal text \<open>L\<close> without backticks and every expression
  text \<open>E\<close> without parentheses the repaired statement has the template body \<open>L\<close>,
  a space, \<open>E\<close>. Line 19 of \<^verbatim>\<open>fix_all_syntax.py\<close> removes the backticks of the
  second group: with \<open>L\<close> the text \<^verbatim>\<open>a\<close> and \<open>E\<close> the text \<^verbatim>\<open>b`c\<close> the body
  written is \<^verbatim>\<open>a bc\<close>, and the flat statement with body \<^verbatim>\<open>a b`c\<close> is nowhere
  on the line. The catch-all substitutions run on the rebuilt line, so a literal text that
  is itself a wrapped expression \<^verbatim>\<open>${JSON.stringify(x)}\<close> is written as
  \<^verbatim>\<open>x\<close>. And the search takes the leftmost match: of two doubly wrapped statements
  on one line the second, with texts \<^verbatim>\<open>a\<close> and \<^verbatim>\<open>b\<close>, leaves no trace in the
  line written.
\<close>

theorem backticks_stripped_from_expression:
  "CHR 0x60 \<notin> set ''a'' \<and> CHR ''('' \<notin> set ''b`c'' \<and> CHR '')'' \<notin> set ''b`c''
   \<and> fix_all_syntax (double_wrapped ''a'' ''b`c'') = ''      console.log(`a bc`);''
   \<and> \<not> contains (flat_log (''a'' @ '' '' @ ''b`c'')) (fix_all_syntax (double_wrapped ''a'' ''b`c''))
   \<and> fix_all_syntax (double_wrapped ''${JSON.stringify(x)}'' ''y'') = ''      console.log(`x y`);''
   \<and> \<not> contains (flat_log (''${JSON.stringify(x)}'' @ '' '' @ ''y''))
         (fix_all_syntax (double_wrapped ''${JSON.stringify(x)}'' ''y''))
   \<and> fix_all_syntax (double_wrapped ''x'' ''y'' @ '' '' @ double_wrapped ''a'' ''b'')
       = ''      console.log(`x y`);''
   \<and> \<not> contains (flat_log (''a'' @ '' '' @ ''b''))
         (fix_all_syntax (double_wrapped ''x'' ''y'' @ '' '' @ double_wrapped ''a'' ''b''))"
  by code_simp

text \<open>
  On the example of the specification \<^verbatim>\<open>fix_json_stringify.py\<close> does not write the
  flat statement either: its first substitution strips every wrapper opening and every
  \<^verbatim>\<open>)}\<close> of the match and leaves the inner backticks.
\<close>

lemma fix_json_stringify_on_spec_example:
  "fix_json_stringify ''console.log(`${JSON.stringify(`Found user`)} ${JSON.stringify(user.id)}`);''
   = ''console.log(``Found user` user.id`);''"
  by code_simp

text \<open>
  Claim C1, amended. Take a line of the content that holds the doubly wrapped statement
  with literal text \<open>L\<close> and expression text \<open>E\<close>, after any text \<open>pre\<close> and before
  any text \<open>post\<close>, the statement being the leftmost match of the pattern on the line:
  no match of the pattern starts inside \<open>pre\<close>. By \<open>no_opening_no_double_match\<close> that
  is so whenever \<open>pre\<close> does not contain the opening
  \<^verbatim>\<open>console.log(`${JSON.stringify(`\<close> of the statement. Let \<open>L\<close> be non-empty,
  without backtick and without the wrapper opening \<^verbatim>\<open>${JSON.stringify(\<close>, and \<open>E\<close>
  non-empty and without parentheses. Then \<^verbatim>\<open>fix_all_syntax.py\<close> writes in its place
  six spaces and the flat logging statement whose template body is \<open>L\<close>, one space, and
  \<open>E\<close> with its backticks removed (\<open>E\<close> itself when it has none), and no wrapper
  opening is left on the line.
\<close>

theorem double_wrapped_repaired:
  assumes "i < length (split_lines content)"
    and "split_lines content ! i = pre @ double_wrapped L E @ post"
    and "\<forall>k<length pre. rmatch double_pattern (drop k (pre @ double_wrapped L E @ post)) = None"
    and "L \<noteq> []" and "CHR 0x60 \<notin> set L" and "\<not> contains ''${JSON.stringify('' L"
    and "E \<noteq> []" and "CHR ''('' \<notin> set E" and "CHR '')'' \<notin> set E"
  shows "split_lines (fix_all_syntax content) ! i
           = ''      '' @ flat_log (L @ '' '' @ filter (\<lambda>x. x \<noteq> CHR 0x60) E)
         \<and> \<not> contains ''${JSON.stringify('' (split_lines (fix_all_syntax content) ! i)"
proof -
  let ?E = "filter (\<lambda>x. x \<noteq> CHR 0x60) E"
  have "split_lines (fix_all_syntax content) ! i = fix_line (split_lines content ! i)"
    using assms(1) by (simp only: fix_all_syntax_lines nth_map)
  also have "\<dots> = fix_line (pre @ double_wrapped L E @ post)" by (simp only: assms(2))
  also have "\<dots> = ''      '' @ flat_log (L @ '' '' @ ?E)"
    using assms(3-9) by (rule double_wrapped_line_repaired)
  finally have eq: "split_lines (fix_all_syntax content) ! i = ''      '' @ flat_log (L @ '' '' @ ?E)" .
  have e: "\<not> contains ''${JSON.stringify('' ?E"
    using contains_set [of "''${JSON.stringify(''" ?E] assms(8) by auto
  have sp: "CHR '' '' \<notin> set ''${JSON.stringify(''" by simp
  have app: "L @ '' '' @ ?E = L @ CHR '' '' # ?E" by simp
  have body: "\<not> contains ''${JSON.stringify('' (L @ '' '' @ ?E)"
    unfolding app contains_char_split [OF sp] using assms(6) e by blast
  have "\<not> contains ''${JSON.stringify('' (''      '' @ flat_log (L @ '' '' @ ?E))"
    using body by (rule flat_log_no_wrap_open)
  then show ?thesis using eq by (simp only: simp_thms)
qed

theorem double_wrapped_repaired_witness:
  "(0::nat) < length (split_lines
       ''console.log(`${JSON.stringify(`Found user`)} ${JSON.stringify(user.id)}`);'')
   \<and> split_lines ''console.log(`${JSON.stringify(`Found user`)} ${JSON.stringify(user.id)}`);'' ! 0
       = [] @ double_wrapped ''Found user'' ''user.id'' @ []
   \<and> split_lines (fix_all_syntax
         ''console.log(`${JSON.stringify(`Found user`)} ${JSON.stringify(user.id)}`);'') ! 0
       = ''      console.log(`Found user user.id`);''
   \<and> (1::nat) < length (split_lines (''try {'' @ [nl] @
         ''  } catch (e) { console.log(`${JSON.stringify(`Found user`)} ${JSON.stringify(user.id)}`); }''))
   \<and> split_lines (''try {'' @ [nl] @
         ''  } catch (e) { console.log(`${JSON.stringify(`Found user`)} ${JSON.stringify(user.id)}`); }'') ! 1
       = ''  } catch (e) { '' @ double_wrapped ''Found user'' ''user.id'' @ '' }''
   \<and> \<not> contains ''console.log(`${JSON.stringify(`'' ''  } catch (e) { ''
   \<and> split_lines (fix_all_syntax (''try {'' @ [nl] @
         ''  } catch (e) { console.log(`${JSON.stringify(`Found user`)} ${JSON.stringify(user.id)}`); }'')) ! 1
       = ''      console.log(`Found user user.id`);''"
proof -
  let ?c = "''console.log(`${JSON.stringify(`Found user`)} ${JSON.stringify(user.id)}`);''"
  let ?d = "''try {'' @ [nl] @
         ''  } catch (e) { console.log(`${JSON.stringify(`Found user`)} ${JSON.stringify(user.id)}`); }''"
  have h1: "0 < length (split_lines ?c)" by code_simp
  have h2: "split_lines ?c ! 0 = [] @ double_wrapped ''Found user'' ''user.id'' @ []" by code_simp
  have n0: "\<forall>k<length []. rmatch double_pattern
              (drop k ([] @ double_wrapped ''Found user'' ''user.id'' @ [])) = None"
    by simp
  have k1: "1 < length (split_lines ?d)" by code_simp
  have k2: "split_lines ?d ! 1 = ''  } catch (e) { '' @ double_wrapped ''Found user'' ''user.id'' @ '' }''"
    by code_simp
  have k3: "\<not> contains ''console.log(`${JSON.stringify(`'' ''  } catch (e) { ''" by code_simp
  have n1: "\<forall>k<length ''  } catch (e) { ''. rmatch double_pattern
              (drop k (''  } catch (e) { '' @ double_wrapped ''Found user'' ''user.id'' @ '' }'')) = None"
    using k3 by (rule no_opening_no_double_match)
  have h3: "''Found user'' \<noteq> []" "CHR 0x60 \<notin> set ''Found user''"
    "\<not> contains ''${JSON.stringify('' ''Found user''" "''user.id'' \<noteq> []"
    "CHR ''('' \<notin> set ''user.id''" "CHR '')'' \<notin> set ''user.id''"
    by code_simp+
  have val: "''      '' @ flat_log (''Found user'' @ '' '' @ filter (\<lambda>x. x \<noteq> CHR 0x60) ''user.id'')
     = ''      console.log(`Found user user.id`);''"
    by code_simp
  from double_wrapped_repaired [OF h1 h2 n0 h3]
  have "split_lines (fix_all_syntax ?c) ! 0
     = ''      '' @ flat_log (''Found user'' @ '' '' @ filter (\<lambda>x. x \<noteq> CHR 0x60) ''user.id'')"
    by (rule conjunct1)
  then have r0: "split_lines (fix_all_syntax ?c) ! 0 = ''      console.log(`Found user user.id`);''"
    by (simp only: val)
  from double_wrapped_repaired [OF k1 k2 n1 h3]
  have "split_lines (fix_all_syntax ?d) ! 1
     = ''      '' @ flat_log (''Found user'' @ '' '' @ filter (\<lambda>x. x \<noteq> CHR 0x60) ''user.id'')"
    by (rule conjunct1)
  then have r1: "split_lines (fix_all_syntax ?d) ! 1 = ''      console.log(`Found user user.id`);''"
    by (simp only: val)
  show ?thesis using h1 h2 r0 k1 k2 k3 r1 by (intro conjI)
qed

text \<open>
  Claim C2 says that for every text \<open>T\<close> without backticks the repaired statement has
  the template body \<open>T\<close>. The catch-all substitutions run on the rebuilt line too: when
  \<open>T\<close> is itself a wrapped expression \<^verbatim>\<open>${JSON.stringify(x)}\<close>, the body written is
  \<^verbatim>\<open>x\<close>. The search takes the leftmost match, so of two singly wrapped statements
  on one line the second leaves no trace in the line written; and on a line that also
  contains \<^verbatim>\<open>)} ${JSON.stringify(\<close> the script takes its other branch, which can
  rebuild the line from a doubly wrapped statement and drop the singly wrapped one.
\<close>

theorem nested_wrapper_in_text_unwrapped:
  "CHR 0x60 \<notin> set ''${JSON.stringify(x)}''
   \<and> fix_all_syntax (single_wrapped ''${JSON.stringify(x)}'') = ''      console.log(`x`);''
   \<and> \<not> contains (flat_log ''${JSON.stringify(x)}'')
         (fix_all_syntax (single_wrapped ''${JSON.stringify(x)}''))
   \<and> fix_all_syntax (single_wrapped ''x'' @ '' '' @ single_wrapped ''a'') = ''      console.log(`x`);''
   \<and> \<not> contains (flat_log ''a'')
         (fix_all_syntax (single_wrapped ''x'' @ '' '' @ single_wrapped ''a''))
   \<and> fix_all_syntax (single_wrapped ''a'' @ '' '' @ double_wrapped ''p'' ''q'')
       = ''      console.log(`p q`);''
   \<and> \<not> contains (flat_log ''a'')
         (fix_all_syntax (single_wrapped ''a'' @ '' '' @ double_wrapped ''p'' ''q''))"
  by code_simp

text \<open>
  Claim C2, amended. Take a line of the content that holds the singly wrapped statement
  with text \<open>T\<close>, after any text \<open>pre\<close> and before any text \<open>post\<close>, the statement
  being the leftmost match of the pattern on the line: no match of the pattern starts
  inside \<open>pre\<close>. By \<open>no_opening_no_single_match\<close> that is so whenever \<open>pre\<close> does not
  contain the opening \<^verbatim>\<open>console.log(`${JSON.stringify(`\<close> of the statement. Let the
  line not contain \<^verbatim>\<open>)} ${JSON.stringify(\<close> (else the script takes its other
  branch), and let \<open>T\<close> be non-empty, without backtick and without the wrapper opening
  \<^verbatim>\<open>${JSON.stringify(\<close>. Then \<^verbatim>\<open>fix_all_syntax.py\<close> writes in its place six
  spaces and the flat logging statement with template body exactly \<open>T\<close>.
\<close>

theorem single_wrapped_repaired:
  assumes "i < length (split_lines content)"
    and "split_lines content ! i = pre @ single_wrapped T @ post"
    and "\<forall>k<length pre. rmatch single_pattern (drop k (pre @ single_wrapped T @ post)) = None"
    and "T \<noteq> []" and "CHR 0x60 \<notin> set T" and "\<not> contains ''${JSON.stringify('' T"
    and "\<not> contains '')} ${JSON.stringify('' (pre @ single_wrapped T @ post)"
  shows "split_lines (fix_all_syntax content) ! i = ''      '' @ flat_log T"
proof -
  have "split_lines (fix_all_syntax content) ! i = fix_line (split_lines content ! i)"
    using assms(1) by (simp only: fix_all_syntax_lines nth_map)
  also have "\<dots> = fix_line (pre @ single_wrapped T @ post)" by (simp only: assms(2))
  also have "\<dots> = ''      '' @ flat_log T"
    using assms(3-7) by (rule single_wrapped_line_repaired)
  finally show ?thesis .
qed

theorem single_wrapped_repaired_witness:
  "(1::nat) < length (split_lines (''start();'' @ [nl] @
         ''  } catch (e) { console.log(`${JSON.stringify(`Server up`)}`); }''))
   \<and> split_lines (''start();'' @ [nl] @
         ''  } catch (e) { console.log(`${JSON.stringify(`Server up`)}`); }'') ! 1
       = ''  } catch (e) { '' @ single_wrapped ''Server up'' @ '' }''
   \<and> \<not> contains ''console.log(`${JSON.stringify(`'' ''  } catch (e) { ''
   \<and> \<not> contains '')} ${JSON.stringify(''
         (''  } catch (e) { '' @ single_wrapped ''Server up'' @ '' }'')
   \<and> split_lines (fix_all_syntax (''start();'' @ [nl] @
         ''  } catch (e) { console.log(`${JSON.stringify(`Server up`)}`); }'')) ! 1
       = ''      console.log(`Server up`);''"
proof -
  let ?c = "''start();'' @ [nl] @ ''  } catch (e) { console.log(`${JSON.stringify(`Server up`)}`); }''"
  have h1: "1 < length (split_lines ?c)" by code_simp
  have h2: "split_lines ?c ! 1 = ''  } catch (e) { '' @ single_wrapped ''Server up'' @ '' }''"
    by code_simp
  have k3: "\<not> contains ''console.log(`${JSON.stringify(`'' ''  } catch (e) { ''" by code_simp
  have n1: "\<forall>k<length ''  } catch (e) { ''. rmatch single_pattern
              (drop k (''  } catch (e) { '' @ single_wrapped ''Server up'' @ '' }'')) = None"
    using k3 by (rule no_opening_no_single_match)
  have h3: "''Server up'' \<noteq> []" "CHR 0x60 \<notin> set ''Server up''"
    "\<not> contains ''${JSON.stringify('' ''Server up''"
    "\<not> contains '')} ${JSON.stringify('' (''  } catch (e) { '' @ single_wrapped ''Server up'' @ '' }'')"
    by code_simp+
  have val: "''      '' @ flat_log ''Server up'' = ''      console.log(`Server up`);''"
    by code_simp
  from single_wrapped_repaired [OF h1 h2 n1 h3]
  have r: "split_lines (fix_all_syntax ?c) ! 1 = ''      console.log(`Server up`);''"
    by (simp only: val)
  show ?thesis using h1 h2 k3 h3(4) r by (intro conjI)
qed

end
